theory Spec2Isabelle
  imports Main "HOL-Library.Word"
begin

unbundle bit_operations_syntax

section \<open>The buffer cursor of \<open>parser_base\<close>\<close>

text \<open>
  The embedding follows \<open>src/parser/parser_base.cpp\<close>. Pointers are addresses
  (natural numbers) into one flat, read-only memory; a \<open>const char*\<close> argument such as
  \<open>expected\<close> or \<open>chars_to_skip\<close> is the address of its first byte. A load of 16 or 32
  bytes reads whatever the memory holds at those addresses, also past \<open>mp_end\<close>, as
  the unaligned loads of the source do. Bytes are \<open>8 word\<close>, so the signed and the
  unsigned reading of a \<open>char\<close> are \<open>sint\<close> and \<open>unat\<close> (or the word order) of the
  same value.
\<close>

type_synonym byte = "8 word"
type_synonym memory = "nat \<Rightarrow> byte"

text \<open>
  A \<open>double\<close> is either the value of \<open>std::numeric_limits<double>::quiet_NaN()\<close> or
  some other value; the arithmetic of the other values plays no role in
  \<open>parse_double\<close> and is left abstract.
\<close>

datatype 'v double = quiet_NaN | Value 'v

text \<open>
  \<open>numeric_parser_type\<close> is \<open>double(const char*& p, size_t max_length)\<close>: the
  strategy reads the memory from \<open>p\<close> and returns the value together with the
  updated \<open>p\<close>.
\<close>

type_synonym 'v numeric_parser_type = "memory \<Rightarrow> nat \<Rightarrow> nat \<Rightarrow> 'v double \<times> nat"

record 'v parser_base =
  mem :: memory
  mp_begin :: nat
  mp_char :: nat
  mp_end :: nat
  m_transient_stream :: bool
  m_func_parse_numeric :: "'v numeric_parser_type"

text \<open>
  The constructor (lines 83 to 88). The default strategy \<open>parse_numeric\<close> lives in
  \<open>parser_global\<close>, outside the sources at hand, and is a parameter here.
\<close>

definition parser_base_ctor ::
  "memory \<Rightarrow> 'v numeric_parser_type \<Rightarrow> nat \<Rightarrow> nat \<Rightarrow> bool \<Rightarrow> 'v parser_base" where
  "parser_base_ctor m parse_numeric p n transient_stream =
     \<lparr>mem = m, mp_begin = p, mp_char = p, mp_end = p + n,
      m_transient_stream = transient_stream, m_func_parse_numeric = parse_numeric\<rparr>"


text \<open>
  Modelled from the spec: the inline members \<open>has_char\<close>, \<open>cur_char\<close>, \<open>next\<close> and
  \<open>available_size\<close> are declared in \<open>orcus/parser_base.hpp\<close>, which is not among the
  sources. Section 4.1 of the specification gives them: \<open>has_char\<close> is true iff
  \<open>current < end\<close>, \<open>cur_char\<close> is the byte at \<open>current\<close>, \<open>next\<close> advances \<open>current\<close>
  by one (or \<open>inc\<close>) positions, and \<open>available_size\<close> is \<open>end - current\<close>. The
  difference is taken on natural numbers: it is the distance whenever
  \<open>current \<le> end\<close>, the only states in which the class is used.
\<close>

definition has_char :: "'v parser_base \<Rightarrow> bool" where
  "has_char s \<longleftrightarrow> mp_char s < mp_end s"

definition cur_char :: "'v parser_base \<Rightarrow> byte" where
  "cur_char s = mem s (mp_char s)"

definition next_inc :: "nat \<Rightarrow> 'v parser_base \<Rightarrow> 'v parser_base" where
  "next_inc inc s = s\<lparr>mp_char := mp_char s + inc\<rparr>"

definition available_size :: "'v parser_base \<Rightarrow> nat" where
  "available_size s = mp_end s - mp_char s"

text \<open>\<open>remaining_size\<close> (lines 245 to 249) and \<open>offset\<close> (lines 251 to 254).\<close>

definition remaining_size :: "'v parser_base \<Rightarrow> nat" where
  "remaining_size s = (let n = available_size s in if n \<noteq> 0 then n - 1 else 0)"


text \<open>
  Modelled from the spec: \<open>is_in\<close> and the \<open>std::string_view\<close> it receives come from
  \<open>orcus/parser_global.hpp\<close>, not among the sources. Section 4.2 of the specification
  describes the scalar test as membership of the byte in the skip-set; the view
  \<open>{p, n}\<close> is the \<open>n\<close> bytes from address \<open>p\<close>.
\<close>

definition string_view :: "memory \<Rightarrow> nat \<Rightarrow> nat \<Rightarrow> byte list" where
  "string_view m p n = map m [p..<p + n]"

definition is_in :: "byte \<Rightarrow> byte list \<Rightarrow> bool" where
  "is_in c allowed \<longleftrightarrow> c \<in> set allowed"

text \<open>
  A \<open>size_t\<close> passed where the callee takes an \<open>int\<close> (the lengths of
  \<open>_mm_cmpestri\<close> and \<open>_mm_cmpestrm\<close>, the counter \<open>n_total\<close> of \<open>skip\<close>) keeps its low
  32 bits, read as two's complement.
\<close>

definition int_of_size_t :: "nat \<Rightarrow> 32 word" where
  "int_of_size_t n = word_of_nat n"

section \<open>The scalar paths\<close>

text \<open>\<open>skip\<close>, lines 131 to 135: \<open>for (; has_char(); next()) if (!is_in(...)) break;\<close>\<close>

function skip_scalar :: "nat \<Rightarrow> nat \<Rightarrow> 'v parser_base \<Rightarrow> 'v parser_base" where
  "skip_scalar chars_to_skip n_chars_to_skip s =
     (if has_char s then
        (if \<not> is_in (cur_char s) (string_view (mem s) chars_to_skip n_chars_to_skip) then s
         else skip_scalar chars_to_skip n_chars_to_skip (next_inc 1 s))
      else s)"
  by pat_completeness auto
termination
  by (relation "measure (\<lambda>(c, n, s). mp_end s - mp_char s)")
     (auto simp: has_char_def next_inc_def)

declare skip_scalar.simps [simp del]

text \<open>
  \<open>skip_space_and_control\<close>, lines 200 and 201. The loop condition is
  \<open>mp_char != mp_end\<close>, so from a state with \<open>mp_end < mp_char\<close> the loop need not
  stop; the result is an option, \<open>None\<close> for a run that does not return.
\<close>

partial_function (option) skip_space_and_control_scalar ::
  "'v parser_base \<Rightarrow> 'v parser_base option" where
  "skip_space_and_control_scalar s =
     (if mp_char s \<noteq> mp_end s \<and> mem s (mp_char s) \<le> of_char CHR '' '' then
        skip_space_and_control_scalar (s\<lparr>mp_char := mp_char s + 1\<rparr>)
      else Some s)"

text \<open>
  \<open>parse_expected\<close>, lines 207, 208 and 223 to 229. The loop returns from inside
  its body at the first mismatch, with the cursor where \<open>next()\<close> has left it.
\<close>

function parse_expected_loop ::
  "nat \<Rightarrow> nat \<Rightarrow> nat \<Rightarrow> 'v parser_base \<Rightarrow> bool \<times> 'v parser_base" where
  "parse_expected_loop n_expected i expected s =
     (if i < n_expected then
        (if cur_char s \<noteq> mem s expected then (False, s)
         else parse_expected_loop n_expected (i + 1) (expected + 1) (next_inc 1 s))
      else (True, s))"
  by pat_completeness auto
termination
  by (relation "measure (\<lambda>(n, i, e, s). n - i)") auto

declare parse_expected_loop.simps [simp del]

definition parse_expected_scalar ::
  "nat \<Rightarrow> nat \<Rightarrow> 'v parser_base \<Rightarrow> bool \<times> 'v parser_base" where
  "parse_expected_scalar expected n_expected s =
     (if n_expected > available_size s then (False, s)
      else parse_expected_loop n_expected 0 expected s)"

section \<open>The numeric parse adapter\<close>

text \<open>\<open>parse_double\<close>, lines 233 to 243.\<close>

definition parse_double :: "'v parser_base \<Rightarrow> 'v double \<times> 'v parser_base" where
  "parse_double s =
     (let max_length = available_size s;
          p = mp_char s;
          (val, p') = m_func_parse_numeric s (mem s) p max_length
      in if p' = mp_char s then (quiet_NaN, s)
         else (val, s\<lparr>mp_char := p'\<rparr>))"

section \<open>The vector instructions\<close>

text \<open>
  The vectorized paths are written with SSE4.2 and AVX2 intrinsics. Their meaning
  is that of the instructions in the Intel 64 and IA-32 Architectures Software
  Developer's Manual, volume 2 (PCMPESTRI, PCMPESTRM, section 4.1 on the string
  instructions; VPCMPGTB, VPAND, VPOR, VPMOVMSKB, TZCNT, MOVD). A vector register is
  the list of its bytes, element 0 being the least significant.
\<close>

type_synonym m128i = "byte list"
type_synonym m256i = "byte list"

definition mm_loadu_si128 :: "memory \<Rightarrow> nat \<Rightarrow> m128i" where
  "mm_loadu_si128 m p = map (\<lambda>i. m (p + i)) [0..<16]"

definition mm256_loadu_si256 :: "memory \<Rightarrow> nat \<Rightarrow> m256i" where
  "mm256_loadu_si256 m p = map (\<lambda>i. m (p + i)) [0..<32]"

subsection \<open>The string comparison instructions\<close>

text \<open>
  The control byte \<open>imm8\<close>: bits 1:0 give the element format (bit 0 clear: bytes,
  the only format the source uses and the only one modelled; bit 1: signed), bits
  3:2 the aggregation, bits 5:4 the polarity, bit 6 the index or mask kind. The
  constants are those of \<open>smmintrin.h\<close>.
\<close>

definition SIDD_UBYTE_OPS :: "8 word" where "SIDD_UBYTE_OPS = 0x00"
definition SIDD_CMP_EQUAL_ANY :: "8 word" where "SIDD_CMP_EQUAL_ANY = 0x00"
definition SIDD_CMP_RANGES :: "8 word" where "SIDD_CMP_RANGES = 0x04"
definition SIDD_CMP_EQUAL_EACH :: "8 word" where "SIDD_CMP_EQUAL_EACH = 0x08"
definition SIDD_CMP_EQUAL_ORDERED :: "8 word" where "SIDD_CMP_EQUAL_ORDERED = 0x0c"
definition SIDD_NEGATIVE_POLARITY :: "8 word" where "SIDD_NEGATIVE_POLARITY = 0x10"
definition SIDD_LEAST_SIGNIFICANT :: "8 word" where "SIDD_LEAST_SIGNIFICANT = 0x00"
definition SIDD_BIT_MASK :: "8 word" where "SIDD_BIT_MASK = 0x00"

named_theorems sidd_defs

declare SIDD_UBYTE_OPS_def [sidd_defs]
declare SIDD_CMP_EQUAL_ANY_def [sidd_defs]
declare SIDD_CMP_RANGES_def [sidd_defs]
declare SIDD_CMP_EQUAL_EACH_def [sidd_defs]
declare SIDD_CMP_EQUAL_ORDERED_def [sidd_defs]
declare SIDD_NEGATIVE_POLARITY_def [sidd_defs]
declare SIDD_LEAST_SIGNIFICANT_def [sidd_defs]
declare SIDD_BIT_MASK_def [sidd_defs]

text \<open>
  An explicit length is an \<open>int\<close>; the instruction takes its absolute value and
  saturates it at the number of elements, 16.
\<close>

definition valid_len :: "32 word \<Rightarrow> nat" where
  "valid_len l = (if 16 < \<bar>sint l\<bar> then 16 else nat \<bar>sint l\<bar>)"

definition elem_le :: "8 word \<Rightarrow> byte \<Rightarrow> byte \<Rightarrow> bool" where
  "elem_le imm x y \<longleftrightarrow> (if bit imm 1 then sint x \<le> sint y else x \<le> y)"

text \<open>
  \<open>bool_res imm a la b lb i j\<close> is the comparison of element \<open>i\<close> of the first
  operand with element \<open>j\<close> of the second, after the override for elements beyond
  the valid lengths \<open>la\<close> and \<open>lb\<close>: both valid, the comparison itself (for ranges,
  \<open>a[i] \<le> b[j]\<close> at even \<open>i\<close> and \<open>b[j] \<le> a[i]\<close> at odd \<open>i\<close>); first valid and
  second invalid, false; first invalid and second valid, true for equal ordered
  only; both invalid, true for equal each and equal ordered.
\<close>

definition bool_res :: "8 word \<Rightarrow> m128i \<Rightarrow> nat \<Rightarrow> m128i \<Rightarrow> nat \<Rightarrow> nat \<Rightarrow> nat \<Rightarrow> bool" where
  "bool_res imm a la b lb i j \<longleftrightarrow>
     (if i < la \<and> j < lb then
        (if \<not> bit imm 3 \<and> bit imm 2 then
           (if even i then elem_le imm (a ! i) (b ! j) else elem_le imm (b ! j) (a ! i))
         else a ! i = b ! j)
      else if i < la then False
      else if j < lb then bit imm 3 \<and> bit imm 2
      else bit imm 3)"

text \<open>
  The aggregation, one bit per element \<open>j\<close> of the second operand: equal any, some
  element of the first operand equals it; ranges, it lies in one of the pairs of
  bounds; equal each, it equals element \<open>j\<close> of the first operand; equal ordered,
  the first operand matches the second from \<open>j\<close> up to the end of the register.
\<close>

definition int_res1 :: "8 word \<Rightarrow> m128i \<Rightarrow> nat \<Rightarrow> m128i \<Rightarrow> nat \<Rightarrow> bool list" where
  "int_res1 imm a la b lb =
     map (\<lambda>j. if bit imm 3 then
                 (if bit imm 2 then (\<forall>i\<in>{0..15 - j}. bool_res imm a la b lb i (j + i))
                  else bool_res imm a la b lb j j)
               else if bit imm 2 then
                 (\<exists>k\<in>{0..<8}. bool_res imm a la b lb (2 * k) j \<and>
                               bool_res imm a la b lb (2 * k + 1) j)
               else (\<exists>i\<in>{0..<16}. bool_res imm a la b lb i j))
         [0..<16]"

text \<open>
  The polarity: bit 4 clear, the bits as they are; bits 5:4 = 01, all 16 bits
  negated; bits 5:4 = 11, only the bits of valid elements of the second operand
  negated.
\<close>

definition int_res2 :: "8 word \<Rightarrow> nat \<Rightarrow> bool list \<Rightarrow> bool list" where
  "int_res2 imm lb r1 =
     map (\<lambda>j. if bit imm 4 \<and> (\<not> bit imm 5 \<or> j < lb) then \<not> r1 ! j else r1 ! j) [0..<16]"

definition pcmpestr :: "m128i \<Rightarrow> 32 word \<Rightarrow> m128i \<Rightarrow> 32 word \<Rightarrow> 8 word \<Rightarrow> bool list" where
  "pcmpestr a la b lb imm =
     int_res2 imm (valid_len lb) (int_res1 imm a (valid_len la) b (valid_len lb))"

text \<open>
  \<open>_mm_cmpestri\<close>: the index of the least significant set bit (bit 6 clear) or of
  the most significant one (bit 6 set), and 16 when no bit is set.
\<close>

definition mm_cmpestri :: "m128i \<Rightarrow> 32 word \<Rightarrow> m128i \<Rightarrow> 32 word \<Rightarrow> 8 word \<Rightarrow> nat" where
  "mm_cmpestri a la b lb imm =
     (let r2 = pcmpestr a la b lb imm
      in if bit imm 6 then
           (if True \<in> set r2 then 15 - length (takeWhile Not (rev r2)) else 16)
         else length (takeWhile Not r2))"

text \<open>
  \<open>_mm_cmpestrm\<close>: the 16 bits in the low two bytes of the result (bit 6 clear),
  or one byte \<open>0xFF\<close> or \<open>0x00\<close> per element (bit 6 set).
\<close>

definition mm_cmpestrm :: "m128i \<Rightarrow> 32 word \<Rightarrow> m128i \<Rightarrow> 32 word \<Rightarrow> 8 word \<Rightarrow> m128i" where
  "mm_cmpestrm a la b lb imm =
     (let r2 = pcmpestr a la b lb imm
      in if bit imm 6 then map (\<lambda>x. if x then 0xFF else 0) r2
         else [horner_sum of_bool 2 (take 8 r2), horner_sum of_bool 2 (drop 8 r2)]
              @ replicate 14 0)"

text \<open>\<open>_mm_cvtsi128_si32\<close>: the low 32 bits of the register.\<close>

definition mm_cvtsi128_si32 :: "m128i \<Rightarrow> 32 word" where
  "mm_cvtsi128_si32 v = horner_sum ucast (2 ^ 8) (take 4 v)"

subsection \<open>The 256-bit instructions\<close>

definition mm256_set1_epi8 :: "byte \<Rightarrow> m256i" where
  "mm256_set1_epi8 c = replicate 32 c"

definition mm256_cmpgt_epi8 :: "m256i \<Rightarrow> m256i \<Rightarrow> m256i" where
  "mm256_cmpgt_epi8 a b = map2 (\<lambda>x y. if sint y < sint x then 0xFF else 0) a b"

definition mm256_and_si256 :: "m256i \<Rightarrow> m256i \<Rightarrow> m256i" where
  "mm256_and_si256 a b = map2 (\<lambda>x y. x AND y) a b"

definition mm256_or_si256 :: "m256i \<Rightarrow> m256i \<Rightarrow> m256i" where
  "mm256_or_si256 a b = map2 (\<lambda>x y. x OR y) a b"

definition mm256_movemask_epi8 :: "m256i \<Rightarrow> 32 word" where
  "mm256_movemask_epi8 a = horner_sum of_bool 2 (map (\<lambda>x. bit x 7) a)"

definition tzcnt_u32 :: "32 word \<Rightarrow> nat" where
  "tzcnt_u32 w = length (takeWhile (\<lambda>i. \<not> bit w i) [0..<32])"

subsection \<open>Bounds on the instructions\<close>

text \<open>
  With negated polarity (bits 5:4 = 01) and equal any or ranges, the bit of the
  first invalid element of the second operand is set, so the index is at most the
  valid length. The loops below stop on an index below the window width; the bound
  is what makes them terminate.
\<close>

lemma takeWhile_Not_le:
  assumes "j < length xs" and "xs ! j"
  shows "length (takeWhile Not xs) \<le> j"
proof (rule ccontr)
  assume "\<not> length (takeWhile Not xs) \<le> j"
  then have lt: "j < length (takeWhile Not xs)" by simp
  then have "takeWhile Not xs ! j \<in> set (takeWhile Not xs)" by (rule nth_mem)
  then have "\<not> takeWhile Not xs ! j" by (auto dest: set_takeWhileD)
  with lt assms show False by (simp add: takeWhile_nth)
qed

lemma length_pcmpestr [simp]: "length (pcmpestr a la b lb imm) = 16"
  by (simp add: pcmpestr_def int_res2_def)

lemma valid_len_le [simp]: "valid_len l \<le> 16"
  by (auto simp: valid_len_def)

lemma pcmpestr_nth:
  "j < 16 \<Longrightarrow> pcmpestr a la b lb imm ! j =
     (let r1 = (if bit imm 3 then
                 (if bit imm 2 then (\<forall>i\<in>{0..15 - j}. bool_res imm a (valid_len la) b (valid_len lb) i (j + i))
                  else bool_res imm a (valid_len la) b (valid_len lb) j j)
               else if bit imm 2 then
                 (\<exists>k\<in>{0..<8}. bool_res imm a (valid_len la) b (valid_len lb) (2 * k) j \<and>
                               bool_res imm a (valid_len la) b (valid_len lb) (2 * k + 1) j)
               else (\<exists>i\<in>{0..<16}. bool_res imm a (valid_len la) b (valid_len lb) i j))
      in if bit imm 4 \<and> (\<not> bit imm 5 \<or> j < valid_len lb) then \<not> r1 else r1)"
  by (auto simp add: pcmpestr_def int_res2_def int_res1_def Let_def simp del: upt_rec_numeral)

lemma mm_cmpestri_le:
  assumes "\<not> bit imm 3" "bit imm 4" "\<not> bit imm 5" "\<not> bit imm 6"
  shows "mm_cmpestri a la b lb imm \<le> valid_len lb"
proof (cases "valid_len lb < 16")
  case True
  have "pcmpestr a la b lb imm ! valid_len lb"
    using assms True by (simp add: pcmpestr_nth bool_res_def)
  then have "length (takeWhile Not (pcmpestr a la b lb imm)) \<le> valid_len lb"
    using True by (intro takeWhile_Not_le) simp_all
  then show ?thesis using assms by (simp add: mm_cmpestri_def)
next
  case False
  then have "valid_len lb = 16" using valid_len_le [of lb] by linarith
  moreover have "length (takeWhile Not (pcmpestr a la b lb imm)) \<le> 16"
    using length_takeWhile_le [of Not "pcmpestr a la b lb imm"] by simp
  ultimately show ?thesis using assms by (simp add: mm_cmpestri_def)
qed

lemma sint32: "sint (x::32 word) = (if uint x < 2 ^ 31 then uint x else uint x - 2 ^ 32)"
proof -
  have s: "sint x = (uint x + 2 ^ 31) mod 2 ^ 32 - 2 ^ 31"
    using int_word_sint [of "uint x", where ?'a = 32] by simp
  have lt: "uint x < 2 ^ 32" using uint_lt2p [of x] by simp
  have ge: "0 \<le> uint x" by simp
  show ?thesis
  proof (cases "uint x < 2 ^ 31")
    case True
    then have "(uint x + 2 ^ 31) mod 2 ^ 32 = uint x + 2 ^ 31"
      using ge by (intro mod_pos_pos_trivial) simp_all
    with s True show ?thesis by simp
  next
    case False
    have "(uint x + 2 ^ 31) mod 2 ^ 32 = (uint x + 2 ^ 31 - 2 ^ 32) mod 2 ^ 32"
      by (simp only: minus_mod_self2)
    also have "\<dots> = uint x + 2 ^ 31 - 2 ^ 32"
      using False lt by (intro mod_pos_pos_trivial) simp_all
    finally show ?thesis using s False by simp
  qed
qed

lemma sint_16 [simp]: "sint (16 :: 32 word) = 16"
  by simp

lemma uint_ge_16:
  fixes n_total :: "32 word"
  assumes "16 \<le> valid_len (if n_total <s 16 then n_total else 16)"
  shows "16 \<le> uint n_total"
proof (cases "n_total <s 16")
  case True
  then have lt: "sint n_total < 16" by (simp add: word_sless_alt)
  from assms True have "16 \<le> valid_len n_total" by simp
  then have "16 \<le> \<bar>sint n_total\<bar>"
    by (cases "16 < \<bar>sint n_total\<bar>") (simp_all add: valid_len_def)
  with lt have "sint n_total < 0" by linarith
  moreover have "0 \<le> uint n_total" by simp
  ultimately have "\<not> uint n_total < 2 ^ 31"
    using sint32 [of n_total] by (cases "uint n_total < 2 ^ 31") simp_all
  then show ?thesis by simp
next
  case False
  then have ge: "16 \<le> sint n_total" by (simp add: word_sless_alt)
  show ?thesis
  proof (cases "uint n_total < 2 ^ 31")
    case True
    with ge sint32 [of n_total] show ?thesis by simp
  next
    case False
    then show ?thesis by simp
  qed
qed

lemma unat_sub_16:
  fixes n_total :: "32 word"
  assumes "16 \<le> valid_len (if n_total <s 16 then n_total else 16)"
  shows "unat (n_total - 16) < unat n_total"
proof -
  have "16 \<le> uint n_total" using assms by (rule uint_ge_16)
  then have le: "16 \<le> n_total" by (simp add: word_le_def)
  then have "unat (n_total - 16) = unat n_total - 16" by (simp add: unat_sub)
  moreover have "16 \<le> unat n_total" using le by (simp add: word_le_nat_alt)
  ultimately show ?thesis by simp
qed


lemma unat_of_nat32: "n < 2 ^ 32 \<Longrightarrow> unat (word_of_nat n :: 32 word) = n"
  by (simp add: unat_of_nat)

lemma sint_of_nat32:
  assumes "n < 2 ^ 31"
  shows "sint (word_of_nat n :: 32 word) = int n"
proof -
  from assms have "unat (word_of_nat n :: 32 word) = n" by (intro unat_of_nat32) simp
  then have "uint (word_of_nat n :: 32 word) = int n" by (simp add: uint_nat)
  with assms show ?thesis using sint32 [of "word_of_nat n"] by simp
qed

lemma valid_len_of_nat: "n \<le> 16 \<Longrightarrow> valid_len (word_of_nat n) = n"
  by (simp add: valid_len_def sint_of_nat32)

section \<open>The vectorized paths\<close>

text \<open>
  \<open>skip\<close>, lines 103 to 129. \<open>n_total\<close> is an \<open>int\<close>: the available size is
  truncated to 32 bits, compared and decremented as a signed value (the decrement
  wraps in the model).
\<close>

definition skip_mode :: "8 word" where
  "skip_mode = SIDD_LEAST_SIGNIFICANT OR SIDD_CMP_EQUAL_ANY OR SIDD_UBYTE_OPS OR SIDD_NEGATIVE_POLARITY"

function skip_sse42_loop :: "m128i \<Rightarrow> nat \<Rightarrow> 'v parser_base \<Rightarrow> 32 word \<Rightarrow> 'v parser_base" where
  "skip_sse42_loop match n_chars_to_skip s n_total =
     (if n_total \<noteq> 0 then
        (let char_block = mm_loadu_si128 (mem s) (mp_char s);
             n = (if n_total <s 16 then n_total else 16);
             r = mm_cmpestri match (int_of_size_t n_chars_to_skip) char_block n skip_mode
         in if r = 0 then s
            else let s' = s\<lparr>mp_char := mp_char s + r\<rparr>
                 in if r < 16 then s'
                    else skip_sse42_loop match n_chars_to_skip s' (n_total - 16))
      else s)"
  by pat_completeness auto
termination
proof (relation "measure (\<lambda>(m, k, s, n_total). unat n_total)", goal_cases)
  case 1
  show ?case by simp
next
  case (2 match n_chars_to_skip s n_total char_block n r s')
  have "r \<le> valid_len n"
    unfolding 2 by (rule mm_cmpestri_le) (simp_all add: skip_mode_def sidd_defs)
  with 2 have "16 \<le> valid_len (if n_total <s 16 then n_total else 16)" by simp
  then have "unat (n_total - 16) < unat n_total" by (rule unat_sub_16)
  then show ?case by simp
qed

declare skip_sse42_loop.simps [simp del]

definition skip_sse42 :: "nat \<Rightarrow> nat \<Rightarrow> 'v parser_base \<Rightarrow> 'v parser_base" where
  "skip_sse42 chars_to_skip n_chars_to_skip s =
     (let match = mm_loadu_si128 (mem s) chars_to_skip;
          n_total = int_of_size_t (available_size s)
      in skip_sse42_loop match n_chars_to_skip s n_total)"

text \<open>
  \<open>skip_space_and_control\<close> with SSE4.2, lines 172 to 198. The 16-byte load from
  the literal \<open>"\0 "\<close> reads its three bytes and the 13 bytes that follow it in the
  read-only data, \<open>rodata\<close>; the instruction is given the length 2.
\<close>

definition skip_space_and_control_mode :: "8 word" where
  "skip_space_and_control_mode = SIDD_LEAST_SIGNIFICANT OR SIDD_CMP_RANGES OR SIDD_UBYTE_OPS OR SIDD_NEGATIVE_POLARITY"


function skip_space_and_control_sse42_loop ::
  "m128i \<Rightarrow> 'v parser_base \<Rightarrow> nat \<Rightarrow> 'v parser_base" where
  "skip_space_and_control_sse42_loop match s n_total =
     (if n_total \<noteq> 0 then
        (let char_block = mm_loadu_si128 (mem s) (mp_char s);
             n = int_of_size_t (min 16 n_total);
             r = mm_cmpestri match 2 char_block n skip_space_and_control_mode
         in if r = 0 then s
            else let s' = s\<lparr>mp_char := mp_char s + r\<rparr>
                 in if r < 16 then s'
                    else skip_space_and_control_sse42_loop match s' (n_total - 16))
      else s)"
  by pat_completeness auto
termination
proof (relation "measure (\<lambda>(m, s, n_total). n_total)", goal_cases)
  case 1
  show ?case by simp
next
  case (2 match s n_total char_block n r s')
  have "r \<le> valid_len n"
    unfolding 2 by (rule mm_cmpestri_le) (simp_all add: skip_space_and_control_mode_def sidd_defs)
  also have "\<dots> = min 16 n_total"
    unfolding 2 int_of_size_t_def by (rule valid_len_of_nat) simp
  finally show ?case using 2 by simp
qed

declare skip_space_and_control_sse42_loop.simps [simp del]

definition skip_space_and_control_sse42 :: "byte list \<Rightarrow> 'v parser_base \<Rightarrow> 'v parser_base" where
  "skip_space_and_control_sse42 rodata s =
     (let match = [0x00, of_char CHR '' '', 0x00] @ rodata;
          n_total = available_size s
      in skip_space_and_control_sse42_loop match s n_total)"

text \<open>\<open>skip_space_and_control\<close> with AVX2, lines 142 to 169.\<close>

function skip_space_and_control_avx2_loop ::
  "m256i \<Rightarrow> m256i \<Rightarrow> 'v parser_base \<Rightarrow> nat \<Rightarrow> 'v parser_base" where
  "skip_space_and_control_avx2_loop ws sb s n_total =
     (if n_total \<noteq> 0 then
        (let char_block = mm256_loadu_si256 (mem s) (mp_char s);
             results = mm256_cmpgt_epi8 char_block ws;
             results = mm256_or_si256 results (mm256_and_si256 char_block sb);
             r = mm256_movemask_epi8 results;
             r = tzcnt_u32 r;
             r = min r n_total
         in if r = 0 then s
            else let s' = s\<lparr>mp_char := mp_char s + r\<rparr>
                 in if r < 32 then s'
                    else skip_space_and_control_avx2_loop ws sb s' (n_total - 32))
      else s)"
  by pat_completeness auto
termination
  by (relation "measure (\<lambda>(ws, sb, s, n_total). n_total)") auto

declare skip_space_and_control_avx2_loop.simps [simp del]

definition skip_space_and_control_avx2 :: "'v parser_base \<Rightarrow> 'v parser_base" where
  "skip_space_and_control_avx2 s =
     (let n_total = available_size s;
          ws = mm256_set1_epi8 (of_char CHR '' '');
          sb = mm256_set1_epi8 0x80
      in skip_space_and_control_avx2_loop ws sb s n_total)"

text \<open>\<open>parse_expected\<close> with SSE4.2, lines 207 to 221.\<close>

definition parse_expected_mode :: "8 word" where
  "parse_expected_mode = SIDD_CMP_EQUAL_ORDERED OR SIDD_UBYTE_OPS OR SIDD_BIT_MASK"

definition parse_expected_sse42 ::
  "nat \<Rightarrow> nat \<Rightarrow> 'v parser_base \<Rightarrow> bool \<times> 'v parser_base" where
  "parse_expected_sse42 expected n_expected s =
     (if n_expected > available_size s then (False, s)
      else
        let v_expected = mm_loadu_si128 (mem s) expected;
            v_char_block = mm_loadu_si128 (mem s) (mp_char s);
            res = mm_cmpestrm v_expected (int_of_size_t n_expected)
                    v_char_block (int_of_size_t n_expected) parse_expected_mode;
            mask = mm_cvtsi128_si32 res
        in (mask \<noteq> 0, if mask \<noteq> 0 then s\<lparr>mp_char := mp_char s + n_expected\<rparr> else s))"

section \<open>Runs of bytes\<close>

text \<open>
  \<open>run_length P m p n\<close> is the length of the longest run of bytes satisfying \<open>P\<close>
  that starts at address \<open>p\<close> and stays within \<open>n\<close> bytes. It is the yardstick
  for all the skip loops, and is not part of the source.
\<close>

definition run_length :: "(byte \<Rightarrow> bool) \<Rightarrow> memory \<Rightarrow> nat \<Rightarrow> nat \<Rightarrow> nat" where
  "run_length P m p n = length (takeWhile P (map m [p..<p + n]))"

text \<open>
  \<open>skips_run P s s'\<close>: the state \<open>s'\<close> is \<open>s\<close> with the cursor moved forward, within the
  buffer, over bytes that all satisfy \<open>P\<close>, to the first byte that does not, or
  to the end of the buffer.
\<close>

definition skips_run :: "(byte \<Rightarrow> bool) \<Rightarrow> 'v parser_base \<Rightarrow> 'v parser_base \<Rightarrow> bool" where
  "skips_run P s s' \<longleftrightarrow>
     s' = s\<lparr>mp_char := mp_char s'\<rparr> \<and> mp_char s \<le> mp_char s' \<and> mp_char s' \<le> mp_end s \<and>
     (\<forall>a\<in>{mp_char s..<mp_char s'}. P (mem s a)) \<and>
     (mp_char s' < mp_end s \<longrightarrow> \<not> P (mem s (mp_char s')))"

section \<open>Concrete inputs\<close>

text \<open>
  \<open>bytes_at xs\<close> is a memory that holds \<open>xs\<close> from address 0 and zero bytes after
  it. \<open>one_digit\<close> is a small numeric strategy: it consumes one decimal digit if
  there is one, and nothing otherwise.
\<close>

definition bytes_at :: "byte list \<Rightarrow> memory" where
  "bytes_at xs a = (if a < length xs then xs ! a else 0)"

definition one_digit :: "nat numeric_parser_type" where
  "one_digit m p max_length =
     (if 0 < max_length \<and> 0x30 \<le> m p \<and> m p \<le> 0x39 then (Value (unat (m p) - 48), p + 1)
      else (quiet_NaN, p))"


definition cursor_on :: "string \<Rightarrow> nat \<Rightarrow> nat \<Rightarrow> nat parser_base" where
  "cursor_on text p n = parser_base_ctor (bytes_at (map of_char text)) one_digit p n False"

text \<open>
  A buffer of five bytes, a space, a tab, the byte \<open>0x80\<close>, a line feed and a
  space, followed by the three bytes of a skip-set.
\<close>

definition high_bit_text :: string where
  "high_bit_text = [CHR 0x20, CHR 0x09, CHR 0x80, CHR 0x0A, CHR 0x20, CHR 0x20, CHR 0x09, CHR 0x0A]"

lemma cursor_on_simps [simp]:
  "mem (cursor_on text p n) = bytes_at (map of_char text)"
  "mp_begin (cursor_on text p n) = p"
  "mp_char (cursor_on text p n) = p"
  "mp_end (cursor_on text p n) = p + n"
  by (simp_all add: cursor_on_def parser_base_ctor_def)

section \<open>Properties of runs\<close>

lemma length_takeWhile_eqI:
  assumes "k \<le> length xs" and "\<And>i. i < k \<Longrightarrow> P (xs ! i)" and "k < length xs \<Longrightarrow> \<not> P (xs ! k)"
  shows "length (takeWhile P xs) = k"
proof -
  have "takeWhile P xs = take k xs"
    using assms by (intro takeWhile_eq_take_P_nth) auto
  with assms(1) show ?thesis by simp
qed

lemma run_length_le: "run_length P m p n \<le> n"
  using length_takeWhile_le [of P "map m [p..<p + n]"] by (simp add: run_length_def)

lemma run_length_all:
  assumes "i < run_length P m p n"
  shows "P (m (p + i))"
proof -
  let ?xs = "map m [p..<p + n]"
  from assms have lt: "i < length (takeWhile P ?xs)" by (simp add: run_length_def)
  then have "takeWhile P ?xs ! i \<in> set (takeWhile P ?xs)" by (rule nth_mem)
  then have "P (takeWhile P ?xs ! i)" by (auto dest: set_takeWhileD)
  moreover have "i < n" using assms run_length_le [of P m p n] by simp
  ultimately show ?thesis using lt by (simp add: takeWhile_nth)
qed

lemma run_length_stop:
  assumes "run_length P m p n < n"
  shows "\<not> P (m (p + run_length P m p n))"
proof -
  let ?xs = "map m [p..<p + n]"
  from assms have "length (takeWhile P ?xs) < length ?xs" by (simp add: run_length_def)
  then have "\<not> P (?xs ! length (takeWhile P ?xs))" by (rule nth_length_takeWhile)
  with assms show ?thesis by (simp add: run_length_def)
qed

lemma run_length_eqI:
  assumes "k \<le> n" and "\<And>i. i < k \<Longrightarrow> P (m (p + i))" and "k < n \<Longrightarrow> \<not> P (m (p + k))"
  shows "run_length P m p n = k"
  unfolding run_length_def using assms by (intro length_takeWhile_eqI) simp_all

lemma run_length_0 [simp]: "run_length P m p 0 = 0"
  by (simp add: run_length_def)

lemma run_length_Suc:
  "run_length P m p (Suc n) = (if P (m p) then Suc (run_length P m (Suc p) n) else 0)"
proof (cases "P (m p)")
  case True
  show ?thesis
  proof (simp only: True if_True, rule run_length_eqI)
    show "Suc (run_length P m (Suc p) n) \<le> Suc n" using run_length_le [of P m "Suc p" n] by simp
  next
    fix i assume "i < Suc (run_length P m (Suc p) n)"
    then show "P (m (p + i))"
      using True run_length_all [of "i - 1" P m "Suc p" n] by (cases i) simp_all
  next
    assume "Suc (run_length P m (Suc p) n) < Suc n"
    then show "\<not> P (m (p + Suc (run_length P m (Suc p) n)))"
      using run_length_stop [of P m "Suc p" n] by simp
  qed
next
  case False
  then show ?thesis by (simp add: run_length_eqI)
qed

text \<open>A window of width \<open>w\<close> at the front decides the run, or the run goes on behind it.\<close>

lemma run_length_window:
  assumes "0 < w"
  shows "run_length P m p n =
         (if run_length P m p (min w n) < w then run_length P m p (min w n)
          else w + run_length P m (p + w) (n - w))"
proof (cases "run_length P m p (min w n) < w")
  case True
  have "run_length P m p n = run_length P m p (min w n)"
  proof (rule run_length_eqI)
    show "run_length P m p (min w n) \<le> n" using run_length_le [of P m p "min w n"] by simp
  next
    fix i assume "i < run_length P m p (min w n)"
    then show "P (m (p + i))" by (rule run_length_all)
  next
    assume "run_length P m p (min w n) < n"
    with True have "run_length P m p (min w n) < min w n" by simp
    then show "\<not> P (m (p + run_length P m p (min w n)))" by (rule run_length_stop)
  qed
  with True show ?thesis by simp
next
  case False
  have "run_length P m p (min w n) \<le> min w n" by (rule run_length_le)
  with False have w: "run_length P m p (min w n) = w" and "w \<le> n"
    by linarith+
  have "run_length P m p n = w + run_length P m (p + w) (n - w)"
  proof (rule run_length_eqI)
    show "w + run_length P m (p + w) (n - w) \<le> n"
      using run_length_le [of P m "p + w" "n - w"] \<open>w \<le> n\<close> by simp
  next
    fix i assume i: "i < w + run_length P m (p + w) (n - w)"
    show "P (m (p + i))"
    proof (cases "i < w")
      case True
      with w show ?thesis by (intro run_length_all [of i P m p "min w n"]) simp
    next
      case False
      with i have "i - w < run_length P m (p + w) (n - w)" by simp
      then have "P (m (p + w + (i - w)))" by (rule run_length_all)
      with False show ?thesis by (simp add: add.assoc)
    qed
  next
    assume "w + run_length P m (p + w) (n - w) < n"
    then have "run_length P m (p + w) (n - w) < n - w" by simp
    then have "\<not> P (m (p + w + run_length P m (p + w) (n - w)))" by (rule run_length_stop)
    then show "\<not> P (m (p + (w + run_length P m (p + w) (n - w))))" by (simp add: add.assoc)
  qed
  with False show ?thesis by simp
qed

lemma run_length_idem: "run_length P m (p + run_length P m p n) (n - run_length P m p n) = 0"
proof (rule run_length_eqI)
  assume "0 < n - run_length P m p n"
  then have "run_length P m p n < n" by simp
  then show "\<not> P (m (p + run_length P m p n + 0))" using run_length_stop [of P m p n] by simp
qed simp_all

subsection \<open>The scalar loops\<close>

lemma skip_scalar_eq:
  "skip_scalar c k s =
     s\<lparr>mp_char := mp_char s +
        run_length (\<lambda>x. is_in x (string_view (mem s) c k)) (mem s) (mp_char s) (available_size s)\<rparr>"
proof (induction c k s rule: skip_scalar.induct)
  case (1 c k s)
  show ?case
  proof (cases "has_char s")
    case False
    then have "available_size s = 0" by (simp add: has_char_def available_size_def)
    with False show ?thesis by (simp add: skip_scalar.simps [of c k s])
  next
    case True
    then obtain n where n: "available_size s = Suc n"
      by (cases "available_size s") (simp_all add: has_char_def available_size_def)
    then have n': "available_size (next_inc 1 s) = n"
      and n'': "available_size (s\<lparr>mp_char := Suc (mp_char s)\<rparr>) = n"
      by (simp_all add: available_size_def next_inc_def)
    show ?thesis
    proof (cases "is_in (cur_char s) (string_view (mem s) c k)")
      case False
      with True n show ?thesis
        by (simp add: skip_scalar.simps [of c k s] run_length_Suc cur_char_def)
    next
      case in_set: True
      with True have "skip_scalar c k s = skip_scalar c k (next_inc 1 s)"
        by (simp add: skip_scalar.simps [of c k s])
      also have "\<dots> = (next_inc 1 s)\<lparr>mp_char := mp_char (next_inc 1 s) +
          run_length (\<lambda>x. is_in x (string_view (mem (next_inc 1 s)) c k)) (mem (next_inc 1 s))
            (mp_char (next_inc 1 s)) (available_size (next_inc 1 s))\<rparr>"
        using True in_set by (intro "1.IH") simp_all
      also have "\<dots> = s\<lparr>mp_char := mp_char s +
          run_length (\<lambda>x. is_in x (string_view (mem s) c k)) (mem s) (mp_char s) (available_size s)\<rparr>"
        using in_set by (simp add: n n'' run_length_Suc next_inc_def cur_char_def)
      finally show ?thesis .
    qed
  qed
qed

lemma skip_space_and_control_scalar_eq:
  assumes "mp_char s \<le> mp_end s"
  shows "skip_space_and_control_scalar s =
         Some (s\<lparr>mp_char := mp_char s +
                 run_length (\<lambda>x. x \<le> 32) (mem s) (mp_char s) (available_size s)\<rparr>)"
  using assms
proof (induction "available_size s" arbitrary: s)
  case 0
  then have "mp_char s = mp_end s" by (simp add: available_size_def)
  with 0 show ?case by (subst skip_space_and_control_scalar.simps) simp
next
  case (Suc n)
  then have ne: "mp_char s \<noteq> mp_end s" and n: "available_size s = Suc n"
    by (simp_all add: available_size_def)
  let ?s' = "s\<lparr>mp_char := mp_char s + 1\<rparr>"
  show ?case
  proof (cases "mem s (mp_char s) \<le> 32")
    case False
    with ne show ?thesis
      by (subst skip_space_and_control_scalar.simps) (simp add: n run_length_Suc)
  next
    case True
    have n': "available_size ?s' = n" using n by (simp add: available_size_def)
    then have n'': "available_size (s\<lparr>mp_char := Suc (mp_char s)\<rparr>) = n" by simp
    have "skip_space_and_control_scalar s = skip_space_and_control_scalar ?s'"
      using ne True by (subst skip_space_and_control_scalar.simps) simp
    also have "\<dots> = Some (?s'\<lparr>mp_char := mp_char ?s' +
        run_length (\<lambda>x. x \<le> 32) (mem ?s') (mp_char ?s') (available_size ?s')\<rparr>)"
      using Suc.prems ne n' by (intro Suc.hyps) simp_all
    also have "\<dots> = Some (s\<lparr>mp_char := mp_char s +
        run_length (\<lambda>x. x \<le> 32) (mem s) (mp_char s) (available_size s)\<rparr>)"
      using True by (simp add: n n'' run_length_Suc)
    finally show ?thesis .
  qed
qed

subsection \<open>The scalar token loop\<close>


lemma parse_expected_loop_success:
  "fst (parse_expected_loop n i e s) \<longleftrightarrow> (\<forall>j<n - i. mem s (mp_char s + j) = mem s (e + j))"
proof (induction n i e s rule: parse_expected_loop.induct)
  case (1 n i e s)
  show ?case
  proof (cases "i < n")
    case False
    then show ?thesis by (simp add: parse_expected_loop.simps [of n i e s])
  next
    case lt: True
    show ?thesis
    proof (cases "cur_char s = mem s e")
      case False
      with lt have "\<not> fst (parse_expected_loop n i e s)"
        by (simp add: parse_expected_loop.simps [of n i e s])
      moreover from False lt have "\<not> (\<forall>j<n - i. mem s (mp_char s + j) = mem s (e + j))"
        by (auto simp: cur_char_def intro: exI [of _ 0])
      ultimately show ?thesis by simp
    next
      case True
      with lt have "fst (parse_expected_loop n i e s) \<longleftrightarrow>
          (\<forall>j<n - (i + 1). mem s (mp_char s + 1 + j) = mem s (e + 1 + j))"
        using "1.IH" by (simp add: parse_expected_loop.simps [of n i e s] next_inc_def)
      also have "\<dots> \<longleftrightarrow> (\<forall>j<n - i. mem s (mp_char s + j) = mem s (e + j))"
      proof
        assume a: "\<forall>j<n - (i + 1). mem s (mp_char s + 1 + j) = mem s (e + 1 + j)"
        show "\<forall>j<n - i. mem s (mp_char s + j) = mem s (e + j)"
        proof (intro allI impI)
          fix j assume "j < n - i"
          show "mem s (mp_char s + j) = mem s (e + j)"
          proof (cases j)
            case 0
            with True show ?thesis by (simp add: cur_char_def)
          next
            case (Suc j')
            with \<open>j < n - i\<close> have "j' < n - (i + 1)" by simp
            with a have "mem s (mp_char s + 1 + j') = mem s (e + 1 + j')" by blast
            with Suc show ?thesis by simp
          qed
        qed
      next
        assume a: "\<forall>j<n - i. mem s (mp_char s + j) = mem s (e + j)"
        show "\<forall>j<n - (i + 1). mem s (mp_char s + 1 + j) = mem s (e + 1 + j)"
        proof (intro allI impI)
          fix j assume "j < n - (i + 1)"
          then have "Suc j < n - i" by simp
          with a have "mem s (mp_char s + Suc j) = mem s (e + Suc j)" by blast
          then show "mem s (mp_char s + 1 + j) = mem s (e + 1 + j)" by simp
        qed
      qed
      finally show ?thesis .
    qed
  qed
qed

lemma parse_expected_loop_True:
  assumes "fst (parse_expected_loop n i e s)"
  shows "snd (parse_expected_loop n i e s) = s\<lparr>mp_char := mp_char s + (n - i)\<rparr>"
  using assms
proof (induction n i e s rule: parse_expected_loop.induct)
  case (1 n i e s)
  show ?case
  proof (cases "i < n")
    case False
    then show ?thesis by (simp add: parse_expected_loop.simps [of n i e s])
  next
    case True
    with "1.prems" have eq: "cur_char s = mem s e"
      by (auto simp: parse_expected_loop.simps [of n i e s] split: if_splits)
    with True "1.prems" have "fst (parse_expected_loop n (i + 1) (e + 1) (next_inc 1 s))"
      by (simp add: parse_expected_loop.simps [of n i e s])
    with True eq have "snd (parse_expected_loop n (i + 1) (e + 1) (next_inc 1 s)) =
        (next_inc 1 s)\<lparr>mp_char := mp_char (next_inc 1 s) + (n - (i + 1))\<rparr>"
      by (intro "1.IH") simp_all
    with True eq show ?thesis
      by (simp add: parse_expected_loop.simps [of n i e s] next_inc_def)
  qed
qed

subsection \<open>What the instructions compute in the modes of the source\<close>

lemma length_loadu [simp]: "length (mm_loadu_si128 m p) = 16"
  by (simp add: mm_loadu_si128_def)

lemma take_loadu: "n \<le> 16 \<Longrightarrow> take n (mm_loadu_si128 m p) = map m [p..<p + n]"
proof -
  assume n: "n \<le> 16"
  have "map m [p..<p + n] = map m (map (\<lambda>i. i + p) [0..<n])"
    by (simp only: map_add_upt add.commute)
  also have "\<dots> = map (\<lambda>i. m (p + i)) [0..<n]" by (simp add: add.commute)
  also have "\<dots> = take n (map (\<lambda>i. m (p + i)) [0..<16])"
    using n by (simp add: take_map del: upt_rec_numeral)
  finally show ?thesis by (simp only: mm_loadu_si128_def)
qed

lemma length_loadu256 [simp]: "length (mm256_loadu_si256 m p) = 32"
  by (simp add: mm256_loadu_si256_def)

lemma loadu256_eq: "mm256_loadu_si256 m p = map m [p..<p + 32]"
proof -
  have "map m [p..<p + 32] = map m (map (\<lambda>i. i + p) [0..<32])"
    by (simp only: map_add_upt add.commute)
  also have "\<dots> = map (\<lambda>i. m (p + i)) [0..<32]" by (simp add: add.commute)
  finally show ?thesis by (simp only: mm256_loadu_si256_def)
qed

lemma takeWhile_Not_window:
  assumes len: "length r2 = 16" and lb: "lb \<le> 16" and lenb: "16 \<le> length b"
    and r2: "\<And>j. j < 16 \<Longrightarrow> r2 ! j \<longleftrightarrow> \<not> (j < lb \<and> Q (b ! j))"
  shows "length (takeWhile Not r2) = length (takeWhile Q (take lb b))"
proof (rule length_takeWhile_eqI)
  let ?k = "length (takeWhile Q (take lb b))"
  have k: "?k \<le> lb" using length_takeWhile_le [of Q "take lb b"] lb lenb by simp
  show "?k \<le> length r2" using k lb len by simp
  show "\<not> r2 ! i" if "i < ?k" for i
  proof -
    from that have "takeWhile Q (take lb b) ! i \<in> set (takeWhile Q (take lb b))" by (rule nth_mem)
    then have "Q (takeWhile Q (take lb b) ! i)" by (auto dest: set_takeWhileD)
    with that have "Q (take lb b ! i)" by (simp add: takeWhile_nth)
    moreover from that k have "i < lb" by simp
    ultimately show ?thesis using r2 [of i] lb by simp
  qed
  show "\<not> \<not> r2 ! ?k" if "?k < length r2"
  proof (cases "?k < lb")
    case True
    then have "?k < length (take lb b)" using lb lenb by simp
    then have "\<not> Q (take lb b ! ?k)" by (rule nth_length_takeWhile)
    with True that len show ?thesis using r2 [of ?k] by simp
  next
    case False
    with that len show ?thesis using r2 [of ?k] by simp
  qed
qed

lemma skip_mode_bits:
  "\<not> bit skip_mode 1" "\<not> bit skip_mode (Suc 0)" "\<not> bit skip_mode 2" "\<not> bit skip_mode 3" "bit skip_mode 4"
  "\<not> bit skip_mode 5" "\<not> bit skip_mode 6"
  by (simp_all add: skip_mode_def sidd_defs)

lemma skip_space_and_control_mode_bits:
  "\<not> bit skip_space_and_control_mode 1" "\<not> bit skip_space_and_control_mode (Suc 0)"
  "bit skip_space_and_control_mode 2"
  "\<not> bit skip_space_and_control_mode 3" "bit skip_space_and_control_mode 4"
  "\<not> bit skip_space_and_control_mode 5" "\<not> bit skip_space_and_control_mode 6"
  by (simp_all add: skip_space_and_control_mode_def sidd_defs)

lemma parse_expected_mode_bits:
  "\<not> bit parse_expected_mode 1" "\<not> bit parse_expected_mode (Suc 0)"
  "bit parse_expected_mode 2" "bit parse_expected_mode 3"
  "\<not> bit parse_expected_mode 4" "\<not> bit parse_expected_mode 5" "\<not> bit parse_expected_mode 6"
  by (simp_all add: parse_expected_mode_def sidd_defs)

text \<open>
  Equal any with negated polarity: the index is the number of leading valid bytes
  of the second operand that occur among the valid bytes of the first.
\<close>

lemma mm_cmpestri_skip_mode:
  assumes "length a = 16" and "length b = 16"
  shows "mm_cmpestri a la b lb skip_mode =
         length (takeWhile (\<lambda>x. x \<in> set (take (valid_len la) a)) (take (valid_len lb) b))"
proof -
  have "length (takeWhile Not (pcmpestr a la b lb skip_mode)) =
        length (takeWhile (\<lambda>x. x \<in> set (take (valid_len la) a)) (take (valid_len lb) b))"
  proof (rule takeWhile_Not_window)
    fix j :: nat assume j: "j < 16"
    have "(\<exists>i\<in>{0..<16}. i < valid_len la \<and> a ! i = b ! j) \<longleftrightarrow> b ! j \<in> set (take (valid_len la) a)"
    proof
      assume "\<exists>i\<in>{0..<16}. i < valid_len la \<and> a ! i = b ! j"
      then obtain i where "i < valid_len la" "a ! i = b ! j" by auto
      moreover have "valid_len la \<le> length a" using assms by simp
      ultimately show "b ! j \<in> set (take (valid_len la) a)"
        by (auto simp: in_set_conv_nth intro!: exI [of _ i])
    next
      assume "b ! j \<in> set (take (valid_len la) a)"
      then obtain i where "i < length (take (valid_len la) a)" "take (valid_len la) a ! i = b ! j"
        by (auto simp: in_set_conv_nth)
      then have "i < valid_len la" "a ! i = b ! j"
        using assms by auto
      moreover from this have "i < 16" by (intro less_le_trans [OF _ valid_len_le])
      ultimately show "\<exists>i\<in>{0..<16}. i < valid_len la \<and> a ! i = b ! j" by auto
    qed
    then show "pcmpestr a la b lb skip_mode ! j \<longleftrightarrow>
        \<not> (j < valid_len lb \<and> b ! j \<in> set (take (valid_len la) a))"
      using j by (auto simp: pcmpestr_nth skip_mode_bits bool_res_def)
  qed (simp_all add: assms)
  then show ?thesis by (simp add: mm_cmpestri_def skip_mode_bits)
qed

text \<open>
  Ranges with the single pair \<open>0x00\<close>, \<open>0x20\<close> and negated polarity: the index is
  the number of leading valid bytes of the second operand that are at most \<open>0x20\<close>,
  as unsigned values.
\<close>

lemma valid_len_2 [simp]: "valid_len 2 = 2"
  by (simp add: valid_len_def)

lemma mm_cmpestri_ranges_mode:
  assumes "a ! 0 = 0" and "a ! 1 = 32" and "length b = 16"
  shows "mm_cmpestri a 2 b lb skip_space_and_control_mode =
         length (takeWhile (\<lambda>x. x \<le> 32) (take (valid_len lb) b))"
proof -
  have "length (takeWhile Not (pcmpestr a 2 b lb skip_space_and_control_mode)) =
        length (takeWhile (\<lambda>x. x \<le> 32) (take (valid_len lb) b))"
  proof (rule takeWhile_Not_window)
    fix j :: nat assume j: "j < 16"
    let ?B = "\<lambda>i. bool_res skip_space_and_control_mode a 2 b (valid_len lb) i j"
    have zero: "?B 0 \<longleftrightarrow> j < valid_len lb"
      using assms by (simp add: bool_res_def skip_space_and_control_mode_bits elem_le_def)
    have one: "?B 1 \<longleftrightarrow> j < valid_len lb \<and> b ! j \<le> 32"
      using assms by (simp add: bool_res_def skip_space_and_control_mode_bits elem_le_def)
    have rest: "\<not> ?B (2 * k)" if "0 < k" for k
      using that by (simp add: bool_res_def skip_space_and_control_mode_bits)
    have "(\<exists>k\<in>{0..<8}. ?B (2 * k) \<and> ?B (2 * k + 1)) \<longleftrightarrow> j < valid_len lb \<and> b ! j \<le> 32"
    proof
      assume "\<exists>k\<in>{0..<8}. ?B (2 * k) \<and> ?B (2 * k + 1)"
      then obtain k where k: "?B (2 * k)" "?B (2 * k + 1)" by auto
      with rest [of k] have "k = 0" by (cases "k = 0") simp_all
      with k one show "j < valid_len lb \<and> b ! j \<le> 32" by simp
    next
      assume "j < valid_len lb \<and> b ! j \<le> 32"
      with zero one have "?B (2 * 0) \<and> ?B (2 * 0 + 1)" by simp
      then show "\<exists>k\<in>{0..<8}. ?B (2 * k) \<and> ?B (2 * k + 1)" by (intro bexI [of _ 0]) simp_all
    qed
    then show "pcmpestr a 2 b lb skip_space_and_control_mode ! j \<longleftrightarrow>
        \<not> (j < valid_len lb \<and> b ! j \<le> 32)"
      using j by (simp add: pcmpestr_nth skip_space_and_control_mode_bits)
  qed (simp_all add: assms)
  then show ?thesis by (simp add: mm_cmpestri_def skip_space_and_control_mode_bits)
qed

lemma sint8: "sint (x::byte) = (if uint x < 128 then uint x else uint x - 256)"
proof -
  have s: "sint x = (uint x + 128) mod 256 - 128"
    using int_word_sint [of "uint x", where ?'a = 8] by simp
  have lt: "uint x < 256" using uint_lt2p [of x] by simp
  have ge: "0 \<le> uint x" by simp
  show ?thesis
  proof (cases "uint x < 128")
    case True
    then have "(uint x + 128) mod 256 = uint x + 128"
      using ge by (intro mod_pos_pos_trivial) simp_all
    with s True show ?thesis by simp
  next
    case False
    have "(uint x + 128) mod 256 = (uint x + 128 - 256) mod 256"
      by (simp only: minus_mod_self2)
    also have "\<dots> = uint x + 128 - 256"
      using False lt by (intro mod_pos_pos_trivial) simp_all
    finally show ?thesis using s False by simp
  qed
qed

lemma bit7_iff: "bit (x::byte) 7 \<longleftrightarrow> 128 \<le> uint x"
proof -
  have "bit x 7 \<longleftrightarrow> sint x < 0" using bit_last_iff [of x] by simp
  also have "\<dots> \<longleftrightarrow> 128 \<le> uint x"
    using sint8 [of x] uint_lt2p [of x] by (cases "uint x < 128") simp_all
  finally show ?thesis .
qed

text \<open>
  The byte of \<open>results\<close> for a byte \<open>x\<close> of the block has its top bit set exactly
  when \<open>x\<close>, read as unsigned, is greater than the space character.
\<close>

lemma avx2_lane:
  "bit ((if sint (32 :: byte) < sint x then 0xFF else 0) OR (x AND 0x80) :: byte) 7 \<longleftrightarrow> \<not> x \<le> 32"
proof -
  have "bit ((if sint (32 :: byte) < sint x then 0xFF else 0) OR (x AND 0x80) :: byte) 7
        \<longleftrightarrow> 32 < sint x \<or> bit x 7"
    by (simp add: bit_or_iff bit_and_iff)
  also have "\<dots> \<longleftrightarrow> 32 < uint x"
    using sint8 [of x] bit7_iff [of x] by (cases "uint x < 128") simp_all
  also have "\<dots> \<longleftrightarrow> \<not> x \<le> 32" by (simp add: word_le_def not_le)
  finally show ?thesis .
qed

lemma map2_replicate:
  "length xs = n \<Longrightarrow> map2 f xs (replicate n c) = map (\<lambda>x. f x c) xs"
  by (induction xs arbitrary: n) auto

lemma avx2_results:
  assumes "length block = 32"
  shows "mm256_or_si256 (mm256_cmpgt_epi8 block (mm256_set1_epi8 32))
           (mm256_and_si256 block (mm256_set1_epi8 0x80)) =
         map (\<lambda>x. (if sint (32 :: byte) < sint x then 0xFF else 0) OR (x AND 0x80)) block"
  using assms
  by (simp add: mm256_or_si256_def mm256_cmpgt_epi8_def mm256_and_si256_def mm256_set1_epi8_def
      map2_replicate map2_map_map)

lemma tzcnt_horner_sum:
  assumes "length bs = 32"
  shows "tzcnt_u32 (horner_sum of_bool 2 bs) = length (takeWhile Not bs)"
proof -
  have "takeWhile (\<lambda>i. \<not> bit (horner_sum of_bool 2 bs :: 32 word) i) [0..<32] =
        takeWhile (\<lambda>i. \<not> bs ! i) [0..<32]"
    using assms by (intro takeWhile_cong) (simp_all add: bit_horner_sum_bit_word_iff del: upt_rec_numeral)
  moreover have "takeWhile Not bs = takeWhile Not (map (\<lambda>i. bs ! i) [0..<32])"
    using map_nth [of bs] assms by simp
  then have "length (takeWhile Not bs) = length (takeWhile (\<lambda>i. \<not> bs ! i) [0..<32])"
    by (simp add: takeWhile_map comp_def del: upt_rec_numeral)
  ultimately show ?thesis by (simp add: tzcnt_u32_def del: upt_rec_numeral)
qed

lemma avx2_block:
  "tzcnt_u32 (mm256_movemask_epi8
     (mm256_or_si256 (mm256_cmpgt_epi8 (mm256_loadu_si256 m p) (mm256_set1_epi8 32))
        (mm256_and_si256 (mm256_loadu_si256 m p) (mm256_set1_epi8 0x80)))) =
   run_length (\<lambda>x. x \<le> 32) m p 32"
proof -
  let ?block = "mm256_loadu_si256 m p"
  let ?lane = "\<lambda>x :: byte. (if sint (32 :: byte) < sint x then 0xFF else 0) OR (x AND 0x80)"
  have "mm256_movemask_epi8 (map ?lane ?block) =
        horner_sum of_bool 2 (map (\<lambda>x. \<not> x \<le> 32) ?block)"
    by (simp only: mm256_movemask_epi8_def map_map comp_def avx2_lane)
  moreover have "tzcnt_u32 (horner_sum of_bool 2 (map (\<lambda>x. \<not> x \<le> 32) ?block)) =
        length (takeWhile Not (map (\<lambda>x. \<not> x \<le> 32) ?block))"
    by (rule tzcnt_horner_sum) simp
  moreover have "length (takeWhile Not (map (\<lambda>x. \<not> x \<le> 32) ?block)) =
        length (takeWhile (\<lambda>x. x \<le> 32) ?block)"
    by (simp add: takeWhile_map comp_def)
  ultimately show ?thesis
    by (simp add: avx2_results run_length_def loadu256_eq)
qed

lemma run_length_min: "min (run_length P m p w) n = run_length P m p (min w n)"
proof (rule sym, rule run_length_eqI)
  show "min (run_length P m p w) n \<le> min w n"
    using run_length_le [of P m p w] by simp
next
  fix i assume "i < min (run_length P m p w) n"
  then have "i < run_length P m p w" by simp
  then show "P (m (p + i))" by (rule run_length_all)
next
  assume "min (run_length P m p w) n < min w n"
  then have "run_length P m p w < w" and "min (run_length P m p w) n = run_length P m p w"
    by linarith+
  then show "\<not> P (m (p + min (run_length P m p w) n))"
    using run_length_stop [of P m p w] by simp
qed

subsection \<open>The vectorized loops\<close>

lemma skip_space_and_control_avx2_loop_eq:
  "skip_space_and_control_avx2_loop (mm256_set1_epi8 32) (mm256_set1_epi8 0x80) s n =
   s\<lparr>mp_char := mp_char s + run_length (\<lambda>x. x \<le> 32) (mem s) (mp_char s) n\<rparr>"
proof (induction n arbitrary: s rule: less_induct)
  case (less n)
  let ?P = "\<lambda>x :: byte. x \<le> 32"
  let ?r = "run_length ?P (mem s) (mp_char s) (min 32 n)"
  have win: "run_length ?P (mem s) (mp_char s) n =
      (if ?r < 32 then ?r else 32 + run_length ?P (mem s) (mp_char s + 32) (n - 32))"
    by (rule run_length_window) simp
  show ?case
  proof (cases "n = 0")
    case True
    then show ?thesis by (simp add: skip_space_and_control_avx2_loop.simps [of _ _ s 0])
  next
    case False
    show ?thesis
    proof (cases "?r < 32")
      case True
      with False win show ?thesis
        by (simp add: skip_space_and_control_avx2_loop.simps [of _ _ s n] avx2_block run_length_min Let_def)
    next
      case r: False
      have "?r \<le> min 32 n" by (rule run_length_le)
      with r have r32: "?r = 32" and n: "32 \<le> n" by linarith+
      let ?s' = "s\<lparr>mp_char := mp_char s + 32\<rparr>"
      have "skip_space_and_control_avx2_loop (mm256_set1_epi8 32) (mm256_set1_epi8 0x80) s n =
            skip_space_and_control_avx2_loop (mm256_set1_epi8 32) (mm256_set1_epi8 0x80) ?s' (n - 32)"
        using False r32
        by (simp add: skip_space_and_control_avx2_loop.simps [of _ _ s n] avx2_block run_length_min Let_def)
      also have "\<dots> = ?s'\<lparr>mp_char := mp_char ?s' +
            run_length ?P (mem ?s') (mp_char ?s') (n - 32)\<rparr>"
        using n False by (intro less.IH) simp
      also have "\<dots> = s\<lparr>mp_char := mp_char s + run_length ?P (mem s) (mp_char s) n\<rparr>"
        using win r by (simp add: add.assoc)
      finally show ?thesis .
    qed
  qed
qed

lemma skip_space_and_control_sse42_loop_eq:
  assumes "match ! 0 = 0" and "match ! 1 = 32"
  shows "skip_space_and_control_sse42_loop match s n =
         s\<lparr>mp_char := mp_char s + run_length (\<lambda>x. x \<le> 32) (mem s) (mp_char s) n\<rparr>"
proof (induction n arbitrary: s rule: less_induct)
  case (less n)
  let ?P = "\<lambda>x :: byte. x \<le> 32"
  let ?r = "run_length ?P (mem s) (mp_char s) (min 16 n)"
  have win: "run_length ?P (mem s) (mp_char s) n =
      (if ?r < 16 then ?r else 16 + run_length ?P (mem s) (mp_char s + 16) (n - 16))"
    by (rule run_length_window) simp
  have r: "mm_cmpestri match 2 (mm_loadu_si128 (mem s) (mp_char s))
             (int_of_size_t (min 16 n)) skip_space_and_control_mode = ?r"
    using assms
    by (simp add: mm_cmpestri_ranges_mode int_of_size_t_def valid_len_of_nat take_loadu
        run_length_def)
  show ?case
  proof (cases "n = 0")
    case True
    then show ?thesis by (simp add: skip_space_and_control_sse42_loop.simps [of _ s 0])
  next
    case False
    show ?thesis
    proof (cases "?r < 16")
      case True
      with False win show ?thesis
        by (simp add: skip_space_and_control_sse42_loop.simps [of _ s n] r Let_def)
    next
      case r16: False
      have "?r \<le> min 16 n" by (rule run_length_le)
      with r16 have r_eq: "?r = 16" and n: "16 \<le> n" by linarith+
      let ?s' = "s\<lparr>mp_char := mp_char s + 16\<rparr>"
      have "skip_space_and_control_sse42_loop match s n =
            skip_space_and_control_sse42_loop match ?s' (n - 16)"
        using False r_eq by (simp add: skip_space_and_control_sse42_loop.simps [of _ s n] r Let_def)
      also have "\<dots> = ?s'\<lparr>mp_char := mp_char ?s' +
            run_length ?P (mem ?s') (mp_char ?s') (n - 16)\<rparr>"
        using n False by (intro less.IH) simp
      also have "\<dots> = s\<lparr>mp_char := mp_char s + run_length ?P (mem s) (mp_char s) n\<rparr>"
        using win r16 by (simp add: add.assoc)
      finally show ?thesis .
    qed
  qed
qed

text \<open>
  The counter of \<open>skip\<close> is an \<open>int\<close>; below \<open>2^31\<close> it holds the available size
  itself.
\<close>

lemma skip_sse42_loop_eq:
  assumes "length match = 16" and "n < 2 ^ 31"
  shows "skip_sse42_loop match k s (word_of_nat n) =
         s\<lparr>mp_char := mp_char s +
            run_length (\<lambda>x. x \<in> set (take (valid_len (int_of_size_t k)) match))
              (mem s) (mp_char s) n\<rparr>"
  using assms(2)
proof (induction n arbitrary: s rule: less_induct)
  case (less n)
  let ?P = "\<lambda>x :: byte. x \<in> set (take (valid_len (int_of_size_t k)) match)"
  let ?r = "run_length ?P (mem s) (mp_char s) (min 16 n)"
  let ?w = "word_of_nat n :: 32 word"
  have win: "run_length ?P (mem s) (mp_char s) n =
      (if ?r < 16 then ?r else 16 + run_length ?P (mem s) (mp_char s + 16) (n - 16))"
    by (rule run_length_window) simp
  have sint: "sint ?w = int n" using less.prems by (rule sint_of_nat32)
  have zero: "?w = 0 \<longleftrightarrow> n = 0"
  proof
    assume "?w = 0"
    then have "unat ?w = 0" by simp
    moreover have "unat ?w = n" using less.prems by (intro unat_of_nat32) simp
    ultimately show "n = 0" by simp
  qed simp
  have vl: "valid_len (if ?w <s 16 then ?w else 16) = min 16 n"
  proof (cases "n < 16")
    case True
    then have "?w <s 16" by (simp add: word_sless_alt sint)
    with True show ?thesis by (simp add: valid_len_of_nat)
  next
    case False
    then have "\<not> ?w <s 16" by (simp add: word_sless_alt sint)
    with False show ?thesis by (simp add: valid_len_def)
  qed
  have r: "mm_cmpestri match (int_of_size_t k) (mm_loadu_si128 (mem s) (mp_char s))
             (if ?w <s 16 then ?w else 16) skip_mode = ?r"
    using assms(1) by (simp only: mm_cmpestri_skip_mode length_loadu vl)
      (simp add: take_loadu run_length_def)
  show ?case
  proof (cases "n = 0")
    case True
    then show ?thesis by (simp add: skip_sse42_loop.simps [of _ _ s 0])
  next
    case False
    with zero have nz: "?w \<noteq> 0" by simp
    show ?thesis
    proof (cases "?r < 16")
      case True
      with nz win show ?thesis
        by (simp add: skip_sse42_loop.simps [of _ _ s ?w] r Let_def)
    next
      case r16: False
      have "?r \<le> min 16 n" by (rule run_length_le)
      with r16 have r_eq: "?r = 16" and n: "16 \<le> n" by linarith+
      let ?s' = "s\<lparr>mp_char := mp_char s + 16\<rparr>"
      have sub: "?w - 16 = word_of_nat (n - 16)" using n by simp
      have "skip_sse42_loop match k s ?w = skip_sse42_loop match k ?s' (?w - 16)"
        using nz r_eq by (simp add: skip_sse42_loop.simps [of _ _ s ?w] r Let_def)
      also have "\<dots> = ?s'\<lparr>mp_char := mp_char ?s' +
            run_length ?P (mem ?s') (mp_char ?s') (n - 16)\<rparr>"
        unfolding sub using n less.prems by (intro less.IH) simp_all
      also have "\<dots> = s\<lparr>mp_char := mp_char s + run_length ?P (mem s) (mp_char s) n\<rparr>"
        using win r16 by (simp add: add.assoc)
      finally show ?thesis .
    qed
  qed
qed

subsection \<open>The skip operations as runs\<close>

lemma skip_space_and_control_avx2_eq:
  "skip_space_and_control_avx2 s =
   s\<lparr>mp_char := mp_char s + run_length (\<lambda>x. x \<le> 32) (mem s) (mp_char s) (available_size s)\<rparr>"
  by (simp add: skip_space_and_control_avx2_def skip_space_and_control_avx2_loop_eq)

lemma skip_space_and_control_sse42_eq:
  "skip_space_and_control_sse42 rodata s =
   s\<lparr>mp_char := mp_char s + run_length (\<lambda>x. x \<le> 32) (mem s) (mp_char s) (available_size s)\<rparr>"
  by (simp add: skip_space_and_control_sse42_def skip_space_and_control_sse42_loop_eq)

lemma skip_sse42_eq:
  assumes "k \<le> 16" and "available_size s < 2 ^ 31"
  shows "skip_sse42 c k s =
     s\<lparr>mp_char := mp_char s +
        run_length (\<lambda>x. is_in x (string_view (mem s) c k)) (mem s) (mp_char s) (available_size s)\<rparr>"
proof -
  have "take (valid_len (int_of_size_t k)) (mm_loadu_si128 (mem s) c) = string_view (mem s) c k"
    using assms(1) by (simp add: int_of_size_t_def valid_len_of_nat take_loadu string_view_def)
  then show ?thesis
    using assms(2)
    by (simp add: skip_sse42_def int_of_size_t_def skip_sse42_loop_eq is_in_def)
qed

lemma skips_run_run_length:
  assumes "mp_char s \<le> mp_end s"
  shows "skips_run P s (s\<lparr>mp_char := mp_char s + run_length P (mem s) (mp_char s) (available_size s)\<rparr>)"
proof -
  let ?r = "run_length P (mem s) (mp_char s) (available_size s)"
  have le: "?r \<le> available_size s" by (rule run_length_le)
  have all: "P (mem s a)" if "a \<in> {mp_char s..<mp_char s + ?r}" for a
  proof -
    from that have "a - mp_char s < ?r" and "a = mp_char s + (a - mp_char s)" by auto
    then show ?thesis using run_length_all [of "a - mp_char s" P "mem s" "mp_char s"] by metis
  qed
  have stop: "\<not> P (mem s (mp_char s + ?r))" if "mp_char s + ?r < mp_end s"
  proof -
    from that have "?r < available_size s" by (simp add: available_size_def)
    then show ?thesis by (rule run_length_stop)
  qed
  show ?thesis
    using assms le all stop by (simp add: skips_run_def available_size_def)
qed

lemma run_length_again:
  assumes "mp_char s \<le> mp_end s"
  shows "run_length P (mem s) (mp_char s + run_length P (mem s) (mp_char s) (available_size s))
           (available_size (s\<lparr>mp_char := mp_char s + run_length P (mem s) (mp_char s) (available_size s)\<rparr>)) = 0"
proof -
  have "available_size (s\<lparr>mp_char := mp_char s + run_length P (mem s) (mp_char s) (available_size s)\<rparr>)
      = available_size s - run_length P (mem s) (mp_char s) (available_size s)"
    by (simp add: available_size_def)
  then show ?thesis by (simp only: run_length_idem)
qed

lemma skip_sse42_run:
  assumes "available_size s < 2 ^ 31"
  shows "skip_sse42 c k s =
     s\<lparr>mp_char := mp_char s +
        run_length (\<lambda>x. x \<in> set (take (valid_len (int_of_size_t k)) (mm_loadu_si128 (mem s) c)))
          (mem s) (mp_char s) (available_size s)\<rparr>"
  using assms by (simp add: skip_sse42_def int_of_size_t_def skip_sse42_loop_eq)

lemma valid_len_17: "valid_len (int_of_size_t 17) = 16"
  by (simp add: valid_len_def int_of_size_t_def)

lemma skip_sse42_long_set_stays: "mp_char (skip_sse42 1 17 (cursor_on ''qabcdefghijklmnopq'' 0 1)) = 0"
proof -
  have "available_size (cursor_on ''qabcdefghijklmnopq'' 0 1) < 2 ^ 31"
    by (simp add: available_size_def)
  moreover have "run_length (\<lambda>x. x \<in> set (take 16 (mm_loadu_si128
      (bytes_at (map of_char ''qabcdefghijklmnopq'')) 1)))
      (bytes_at (map of_char ''qabcdefghijklmnopq'')) 0 1 = 0"
    by code_simp
  ultimately show ?thesis
    by (simp add: skip_sse42_run valid_len_17 available_size_def)
qed

lemma skip_sse42_long_set_stops: "mp_char (skip_sse42 3 17 (cursor_on ''aq!abcdefghijklmnopq'' 0 3)) = 1"
proof -
  have "available_size (cursor_on ''aq!abcdefghijklmnopq'' 0 3) < 2 ^ 31"
    by (simp add: available_size_def)
  moreover have "run_length (\<lambda>x. x \<in> set (take 16 (mm_loadu_si128
      (bytes_at (map of_char ''aq!abcdefghijklmnopq'')) 3)))
      (bytes_at (map of_char ''aq!abcdefghijklmnopq'')) 0 3 = 1"
    by code_simp
  ultimately show ?thesis
    by (simp add: skip_sse42_run valid_len_17 available_size_def)
qed

text \<open>
  The bound on the available size is needed: \<open>n_total\<close> keeps the low 32 bits of
  the size, so with \<open>2^32\<close> bytes available the vectorized \<open>skip\<close> does not move at
  all, whatever the bytes are, while the scalar path skips every member byte.
\<close>

lemma skip_sse42_counter_truncated:
  assumes "available_size s = 2 ^ 32"
  shows "skip_sse42 c k s = s"
proof -
  have "int_of_size_t (2 ^ 32) = 0" by (simp add: int_of_size_t_def)
  with assms show ?thesis
    by (simp add: skip_sse42_def skip_sse42_loop.simps [of _ _ s 0])
qed

lemma skip_scalar_all_members:
  assumes "\<And>a. is_in (mem s a) (string_view (mem s) c k)"
  shows "skip_scalar c k s = s\<lparr>mp_char := mp_char s + available_size s\<rparr>"
proof -
  have "run_length (\<lambda>x. is_in x (string_view (mem s) c k)) (mem s) (mp_char s) (available_size s)
        = available_size s"
    using assms by (intro run_length_eqI) simp_all
  then show ?thesis by (simp add: skip_scalar_eq)
qed

section \<open>Properties of the token matcher\<close>

text \<open>The vectorized path moves the cursor only together with a true result.\<close>

lemma parse_expected_sse42_failure:
  "\<not> fst (parse_expected_sse42 e n s) \<Longrightarrow> snd (parse_expected_sse42 e n s) = s"
  by (simp add: parse_expected_sse42_def Let_def split: if_splits)

text \<open>On the scalar path a true result means that all \<open>n\<close> bytes were equal and consumed.\<close>

lemma parse_expected_scalar_success:
  assumes "fst (parse_expected_scalar e n s)"
  shows "snd (parse_expected_scalar e n s) = s\<lparr>mp_char := mp_char s + n\<rparr> \<and>
         (\<forall>j<n. mem s (mp_char s + j) = mem s (e + j))"
proof -
  from assms have le: "\<not> n > available_size s" and t: "fst (parse_expected_loop n 0 e s)"
    by (auto simp: parse_expected_scalar_def split: if_splits)
  from t have "snd (parse_expected_loop n 0 e s) = s\<lparr>mp_char := mp_char s + (n - 0)\<rparr>"
    by (rule parse_expected_loop_True)
  moreover from t have "\<forall>j<n - 0. mem s (mp_char s + j) = mem s (e + j)"
    by (simp only: parse_expected_loop_success)
  ultimately show ?thesis using le by (simp add: parse_expected_scalar_def)
qed

subsection \<open>The mask of the vectorized token match\<close>

lemma horner_sum_bool_eq_0_iff:
  fixes bs :: "bool list"
  assumes "length bs \<le> 8"
  shows "(horner_sum of_bool 2 bs :: byte) = 0 \<longleftrightarrow> True \<notin> set bs"
proof
  assume z: "(horner_sum of_bool 2 bs :: byte) = 0"
  show "True \<notin> set bs"
  proof
    assume "True \<in> set bs"
    then obtain j where j: "j < length bs" "bs ! j" by (auto simp: in_set_conv_nth)
    with assms have "bit (horner_sum of_bool 2 bs :: byte) j"
      by (simp add: bit_horner_sum_bit_word_iff)
    with z show False by simp
  qed
next
  assume "True \<notin> set bs"
  then have "\<not> bit (horner_sum of_bool 2 bs :: byte) j" for j
    by (auto simp: bit_horner_sum_bit_word_iff in_set_conv_nth)
  then show "(horner_sum of_bool 2 bs :: byte) = 0"
    by (intro bit_eqI) simp
qed

lemma unat_byte_less: "unat (b :: byte) < 256"
  using unsigned_less [of b, where ?'a = nat] by simp

lemma unat_ucast_byte: "unat (ucast (b :: byte) :: 32 word) = unat b"
proof -
  have "unat (ucast b :: 32 word) = take_bit 32 (unat b)"
    by (simp add: unsigned_ucast_eq)
  also have "\<dots> = unat b"
    using unat_byte_less [of b] by (intro take_bit_nat_eq_self) simp
  finally show ?thesis .
qed

lemma unat_low_two_bytes:
  fixes b0 b1 :: byte
  shows "unat (ucast b0 + 256 * ucast b1 :: 32 word) = unat b0 + 256 * unat b1"
proof -
  have lt: "unat b0 + 256 * unat b1 < 2 ^ 32"
    using unat_byte_less [of b0] unat_byte_less [of b1] by simp
  have m: "unat (256 * ucast b1 :: 32 word) = 256 * unat b1"
  proof -
    have "unat (256 * ucast b1 :: 32 word) = (256 * unat b1) mod 2 ^ 32"
      by (simp add: unat_word_ariths unat_ucast_byte)
    also have "\<dots> = 256 * unat b1"
      using unat_byte_less [of b1] by (intro mod_less) simp
    finally show ?thesis .
  qed
  have "unat (ucast b0 :: 32 word) + unat (256 * ucast b1 :: 32 word) < 2 ^ LENGTH(32)"
    using lt by (simp add: m unat_ucast_byte)
  then have "unat (ucast b0 + 256 * ucast b1 :: 32 word) =
      unat (ucast b0 :: 32 word) + unat (256 * ucast b1 :: 32 word)"
    by (rule unat_add_lem [THEN iffD1])
  then show ?thesis by (simp only: m unat_ucast_byte)
qed

text \<open>The mask of \<open>parse_expected\<close> is not zero exactly when some result bit is set.\<close>

lemma mask_nonzero_iff:
  "mm_cvtsi128_si32 (mm_cmpestrm a la b lb parse_expected_mode) \<noteq> 0 \<longleftrightarrow>
   True \<in> set (pcmpestr a la b lb parse_expected_mode)"
proof -
  let ?bs = "pcmpestr a la b lb parse_expected_mode"
  let ?b0 = "horner_sum of_bool 2 (take 8 ?bs) :: byte"
  let ?b1 = "horner_sum of_bool 2 (drop 8 ?bs) :: byte"
  have "mm_cvtsi128_si32 (mm_cmpestrm a la b lb parse_expected_mode) = ucast ?b0 + 256 * ucast ?b1"
  proof -
    have "replicate 14 (0 :: byte) = [0, 0] @ replicate 12 0" by code_simp
    then show ?thesis
      by (simp add: mm_cvtsi128_si32_def mm_cmpestrm_def parse_expected_mode_bits Let_def)
  qed
  then have "mm_cvtsi128_si32 (mm_cmpestrm a la b lb parse_expected_mode) = 0 \<longleftrightarrow>
      unat ?b0 + 256 * unat ?b1 = 0"
    using unat_low_two_bytes [of ?b0 ?b1] by (metis unat_eq_zero)
  also have "\<dots> \<longleftrightarrow> ?b0 = 0 \<and> ?b1 = 0" by (simp add: unat_eq_zero)
  also have "\<dots> \<longleftrightarrow> True \<notin> set (take 8 ?bs) \<and> True \<notin> set (drop 8 ?bs)"
    by (simp add: horner_sum_bool_eq_0_iff)
  also have "\<dots> \<longleftrightarrow> True \<notin> set (take 8 ?bs @ drop 8 ?bs)" by (simp only: set_append Un_iff) blast
  also have "\<dots> \<longleftrightarrow> True \<notin> set ?bs" by (simp only: append_take_drop_id)
  finally show ?thesis by blast
qed


lemma loadu_nth: "i < 16 \<Longrightarrow> mm_loadu_si128 m p ! i = m (p + i)"
  by (simp add: mm_loadu_si128_def del: upt_rec_numeral)

text \<open>
  Equal ordered with both lengths \<open>n\<close> below 16: bit 0 stands for the match of
  all \<open>n\<close> bytes, and no other bit is set, because a match that starts later runs
  into the invalid bytes of the second operand.
\<close>

lemma pcmpestr_equal_ordered_short:
  assumes n: "n < 16"
  shows "True \<in> set (pcmpestr a (word_of_nat n) b (word_of_nat n) parse_expected_mode) \<longleftrightarrow>
         (\<forall>i<n. a ! i = b ! i)"
proof -
  let ?bs = "pcmpestr a (word_of_nat n) b (word_of_nat n) parse_expected_mode"
  let ?B = "\<lambda>i k. bool_res parse_expected_mode a n b n i k"
  have vl: "valid_len (word_of_nat n) = n" using n by (intro valid_len_of_nat) simp
  have B: "?B i k \<longleftrightarrow> (i < n \<longrightarrow> k < n \<and> a ! i = b ! k)" for i k
    by (simp add: bool_res_def parse_expected_mode_bits)
  have nth: "?bs ! j \<longleftrightarrow> (\<forall>i\<in>{0..15 - j}. ?B i (j + i))" if "j < 16" for j
    using that by (simp add: pcmpestr_nth parse_expected_mode_bits vl)
  have later: "\<not> ?bs ! j" if "0 < j" "j < 16" "0 < n" for j
  proof (cases "j < n")
    case True
    with that n have "n - j \<in> {0..15 - j}" and "\<not> ?B (n - j) (j + (n - j))"
      by (simp_all add: B)
    with nth [OF that(2)] show ?thesis by blast
  next
    case False
    with that have "0 \<in> {0..15 - j}" and "\<not> ?B 0 (j + 0)" by (simp_all add: B)
    with nth [OF that(2)] show ?thesis by blast
  qed
  have first: "?bs ! 0 \<longleftrightarrow> (\<forall>i<n. a ! i = b ! i)"
  proof -
    have "?bs ! 0 \<longleftrightarrow> (\<forall>i\<in>{0..15}. i < n \<longrightarrow> a ! i = b ! i)"
      using nth [of 0] by (simp add: B)
    also have "\<dots> \<longleftrightarrow> (\<forall>i<n. a ! i = b ! i)" using n by auto
    finally show ?thesis .
  qed
  show ?thesis
  proof
    assume "True \<in> set ?bs"
    then obtain j where j: "j < 16" "?bs ! j" by (auto simp: in_set_conv_nth)
    show "\<forall>i<n. a ! i = b ! i"
    proof (cases "j = 0 \<or> n = 0")
      case True
      with j first show ?thesis by auto
    next
      case False
      with later [of j] j show ?thesis by simp
    qed
  next
    assume "\<forall>i<n. a ! i = b ! i"
    with first have "?bs ! 0" by simp
    moreover have "0 < length ?bs" by simp
    ultimately show "True \<in> set ?bs" by (metis nth_mem)
  qed
qed

text \<open>
  So for tokens shorter than 16 bytes the vectorized \<open>parse_expected\<close> succeeds
  exactly when the token fits and all its bytes match, and then advances by \<open>n\<close>.
\<close>

lemma parse_expected_sse42_short:
  assumes "n < 16"
  shows "parse_expected_sse42 e n s =
         (if n \<le> available_size s \<and> (\<forall>j<n. mem s (mp_char s + j) = mem s (e + j))
          then (True, s\<lparr>mp_char := mp_char s + n\<rparr>) else (False, s))"
proof -
  have "(\<forall>i<n. mm_loadu_si128 (mem s) e ! i = mm_loadu_si128 (mem s) (mp_char s) ! i) \<longleftrightarrow>
        (\<forall>j<n. mem s (mp_char s + j) = mem s (e + j))"
    using assms by (auto simp: loadu_nth)
  then show ?thesis
    using assms
    by (auto simp: parse_expected_sse42_def Let_def int_of_size_t_def mask_nonzero_iff
        pcmpestr_equal_ordered_short)
qed

section \<open>Preservation of the invariant\<close>











section \<open>Claims about sizes\<close>

text \<open>
  C8. \<open>remaining_size\<close> is \<open>available_size\<close> minus one when \<open>available_size\<close> is not
  zero, and zero when it is zero.
\<close>

theorem remaining_size_eq:
  "(available_size s \<noteq> 0 \<longrightarrow> remaining_size s = available_size s - 1) \<and>
   (available_size s = 0 \<longrightarrow> remaining_size s = 0)"
  by (simp add: remaining_size_def)

theorem remaining_size_eq_witness:
  "available_size (cursor_on ''ABCD'' 0 4) = 4 \<and> remaining_size (cursor_on ''ABCD'' 0 4) = 3 \<and>
   available_size (cursor_on ''ABCD'' 4 0) = 0 \<and> remaining_size (cursor_on ''ABCD'' 4 0) = 0"
  using remaining_size_eq [of "cursor_on ''ABCD'' 0 4"] remaining_size_eq [of "cursor_on ''ABCD'' 4 0"]
  by (simp add: available_size_def cursor_on_def parser_base_ctor_def)

section \<open>Claims about the token matcher\<close>

text \<open>
  C7. When \<open>n_expected\<close> exceeds \<open>available_size\<close>, \<open>parse_expected\<close> returns false
  at once and the cursor is not changed, on the scalar and on the vectorized path.
\<close>

theorem parse_expected_too_long:
  assumes "available_size s < n_expected"
  shows "parse_expected_scalar expected n_expected s = (False, s) \<and>
         parse_expected_sse42 expected n_expected s = (False, s)"
  using assms by (simp add: parse_expected_scalar_def parse_expected_sse42_def)

theorem parse_expected_too_long_witness:
  "available_size (cursor_on ''ABCD'' 3 1) < 2 \<and>
   parse_expected_scalar 0 2 (cursor_on ''ABCD'' 3 1) = (False, cursor_on ''ABCD'' 3 1) \<and>
   parse_expected_sse42 0 2 (cursor_on ''ABCD'' 3 1) = (False, cursor_on ''ABCD'' 3 1)"
proof -
  have h: "available_size (cursor_on ''ABCD'' 3 1) < 2"
    by (simp add: available_size_def cursor_on_def parser_base_ctor_def)
  from h parse_expected_too_long [OF h, of 0] show ?thesis by simp
qed

text \<open>
  C10. With a token of length zero \<open>parse_expected\<close> returns true and leaves the
  cursor unchanged, in every state and on both paths.
\<close>

theorem parse_expected_empty:
  "parse_expected_scalar expected 0 s = (True, s) \<and>
   parse_expected_sse42 expected 0 s = (True, s)"
  by (simp add: parse_expected_scalar_def parse_expected_loop.simps parse_expected_sse42_short)

theorem parse_expected_empty_witness:
  "parse_expected_scalar 4 0 (cursor_on ''ABCD'' 4 0) = (True, cursor_on ''ABCD'' 4 0) \<and>
   parse_expected_sse42 4 0 (cursor_on ''ABCD'' 4 0) = (True, cursor_on ''ABCD'' 4 0)"
  by (rule parse_expected_empty)

text \<open>
  C1. On the scalar path a failed match leaves the cursor behind the bytes that
  matched: with the buffer \<open>AXCD\<close> and the token \<open>AB\<close> (stored behind the buffer, at
  address 4), \<open>parse_expected\<close> returns false with the cursor advanced by one.
\<close>

theorem parse_expected_scalar_failure_advances:
  "parse_expected_scalar 4 2 (cursor_on ''AXCDAB'' 0 4) =
     (False, (cursor_on ''AXCDAB'' 0 4)\<lparr>mp_char := 1\<rparr>)"
  by (simp add: parse_expected_scalar_def available_size_def parse_expected_loop.simps
      cur_char_def next_inc_def bytes_at_def)

text \<open>
  C2. A true result moves the cursor by \<open>n\<close> on both paths, and on the scalar path,
  and on the vectorized path for tokens shorter than 16 bytes, the consumed bytes
  equal the token (lemmas \<open>parse_expected_scalar_success\<close> and
  \<open>parse_expected_sse42_short\<close>). On the vectorized path a token of 16
  bytes is reported as matched when only the last byte of the window equals the
  first byte of the token: the buffer is \<open>xxxxxxxxxxxxxxx0\<close>, the token
  \<open>0123456789abcdef\<close> (at address 16), the result is true and the cursor moves
  by 16.
\<close>

theorem parse_expected_sse42_false_success:
  "parse_expected_sse42 16 16 (cursor_on ''xxxxxxxxxxxxxxx00123456789abcdef'' 0 16) =
     (True, (cursor_on ''xxxxxxxxxxxxxxx00123456789abcdef'' 0 16)\<lparr>mp_char := 16\<rparr>) \<and>
   mem (cursor_on ''xxxxxxxxxxxxxxx00123456789abcdef'' 0 16) 0 \<noteq>
   mem (cursor_on ''xxxxxxxxxxxxxxx00123456789abcdef'' 0 16) 16"
proof -
  have "mm_cvtsi128_si32
      (mm_cmpestrm (mm_loadu_si128 (bytes_at (map of_char ''xxxxxxxxxxxxxxx00123456789abcdef'')) 16)
         (int_of_size_t 16)
         (mm_loadu_si128 (bytes_at (map of_char ''xxxxxxxxxxxxxxx00123456789abcdef'')) 0)
         (int_of_size_t 16) parse_expected_mode) = 0x8000"
    by code_simp
  moreover have "bytes_at (map of_char ''xxxxxxxxxxxxxxx00123456789abcdef'') 0 \<noteq>
      bytes_at (map of_char ''xxxxxxxxxxxxxxx00123456789abcdef'') 16"
    by code_simp
  ultimately show ?thesis
    by (simp add: parse_expected_sse42_def available_size_def)
qed

section \<open>Claims about the numeric parse adapter\<close>

text \<open>
  C6. Let the strategy, called on the current position and the available size,
  return the value \<open>val\<close> and the position \<open>p'\<close>. If \<open>p'\<close> is the current position
  (no byte consumed), \<open>parse_double\<close> returns the NaN sentinel and the state is
  unchanged; otherwise it returns \<open>val\<close> and moves the cursor to \<open>p'\<close>. So the
  sentinel together with an unmoved cursor is returned exactly when the strategy
  consumed nothing.
\<close>

theorem parse_double_eq:
  assumes "m_func_parse_numeric s (mem s) (mp_char s) (available_size s) = (val, p')"
  shows "(p' = mp_char s \<longrightarrow> parse_double s = (quiet_NaN, s)) \<and>
         (p' \<noteq> mp_char s \<longrightarrow> parse_double s = (val, s\<lparr>mp_char := p'\<rparr>)) \<and>
         (fst (parse_double s) = quiet_NaN \<and> mp_char (snd (parse_double s)) = mp_char s
            \<longleftrightarrow> p' = mp_char s)"
  using assms by (auto simp: parse_double_def Let_def)


theorem parse_double_eq_witness:
  "m_func_parse_numeric (cursor_on ''7x'' 0 2) (mem (cursor_on ''7x'' 0 2))
     (mp_char (cursor_on ''7x'' 0 2)) (available_size (cursor_on ''7x'' 0 2)) = (Value 7, 1) \<and>
   parse_double (cursor_on ''7x'' 0 2) = (Value 7, (cursor_on ''7x'' 0 2)\<lparr>mp_char := 1\<rparr>) \<and>
   m_func_parse_numeric (cursor_on ''abc'' 0 3) (mem (cursor_on ''abc'' 0 3))
     (mp_char (cursor_on ''abc'' 0 3)) (available_size (cursor_on ''abc'' 0 3)) = (quiet_NaN, 0) \<and>
   parse_double (cursor_on ''abc'' 0 3) = (quiet_NaN, cursor_on ''abc'' 0 3)"
proof -
  have h1: "m_func_parse_numeric (cursor_on ''7x'' 0 2) (mem (cursor_on ''7x'' 0 2))
     (mp_char (cursor_on ''7x'' 0 2)) (available_size (cursor_on ''7x'' 0 2)) = (Value 7, 1)"
    by (simp add: cursor_on_def parser_base_ctor_def available_size_def one_digit_def bytes_at_def)
  have h2: "m_func_parse_numeric (cursor_on ''abc'' 0 3) (mem (cursor_on ''abc'' 0 3))
     (mp_char (cursor_on ''abc'' 0 3)) (available_size (cursor_on ''abc'' 0 3)) = (quiet_NaN, 0)"
    by (simp add: cursor_on_def parser_base_ctor_def available_size_def one_digit_def bytes_at_def)
  have c1: "mp_char (cursor_on ''7x'' 0 2) = 0" and c2: "mp_char (cursor_on ''abc'' 0 3) = 0"
    by (simp_all add: cursor_on_def parser_base_ctor_def)
  from parse_double_eq [OF h1] parse_double_eq [OF h2] h1 h2 c1 c2 show ?thesis by simp
qed

section \<open>Properties of the skip engines\<close>

text \<open>
  In a state with \<open>mp_char \<le> mp_end\<close> the three paths of \<open>skip_space_and_control\<close>
  return the same state on every input. The vectorized and the scalar path of
  \<open>skip\<close> return the same state when the skip-set has at most 16 bytes and fewer
  than \<open>2^31\<close> bytes are available.
\<close>

lemma skip_paths_agree:
  assumes "mp_char s \<le> mp_end s"
  shows "(n_chars_to_skip \<le> 16 \<and> available_size s < 2 ^ 31 \<longrightarrow>
            skip_sse42 chars_to_skip n_chars_to_skip s = skip_scalar chars_to_skip n_chars_to_skip s) \<and>
         skip_space_and_control_scalar s = Some (skip_space_and_control_avx2 s) \<and>
         skip_space_and_control_sse42 rodata s = skip_space_and_control_avx2 s"
  using assms
  by (simp add: skip_sse42_eq skip_scalar_eq skip_space_and_control_scalar_eq
      skip_space_and_control_avx2_eq skip_space_and_control_sse42_eq)

lemma skip_paths_agree_example:
  "mp_char (cursor_on high_bit_text 0 5) \<le> mp_end (cursor_on high_bit_text 0 5) \<and>
   (3::nat) \<le> 16 \<and> available_size (cursor_on high_bit_text 0 5) < 2 ^ 31 \<and>
   skip_sse42 5 3 (cursor_on high_bit_text 0 5) = skip_scalar 5 3 (cursor_on high_bit_text 0 5) \<and>
   skip_space_and_control_scalar (cursor_on high_bit_text 0 5) =
     Some (skip_space_and_control_avx2 (cursor_on high_bit_text 0 5)) \<and>
   skip_space_and_control_sse42 [] (cursor_on high_bit_text 0 5) =
     skip_space_and_control_avx2 (cursor_on high_bit_text 0 5)"
proof -
  have h: "mp_char (cursor_on high_bit_text 0 5) \<le> mp_end (cursor_on high_bit_text 0 5)"
    by simp
  have a: "available_size (cursor_on high_bit_text 0 5) < 2 ^ 31"
    by (simp add: available_size_def)
  from skip_paths_agree [OF h, of 3 5 "[]"] h a show ?thesis by simp
qed

text \<open>
  The scalar \<open>skip\<close> moves the cursor over the members of the skip-set to the first
  byte that is not a member, or to the end, for every skip-set, and a second call
  changes nothing. The vectorized \<open>skip\<close> does the same when the skip-set has at
  most 16 bytes and fewer than \<open>2^31\<close> bytes are available.
\<close>

lemma skip_stops_at_first_nonmember:
  assumes "mp_char s \<le> mp_end s"
  shows "skips_run (\<lambda>x. is_in x (string_view (mem s) c k)) s (skip_scalar c k s) \<and>
         skip_scalar c k (skip_scalar c k s) = skip_scalar c k s \<and>
         (k \<le> 16 \<and> available_size s < 2 ^ 31 \<longrightarrow>
            skips_run (\<lambda>x. is_in x (string_view (mem s) c k)) s (skip_sse42 c k s) \<and>
            skip_sse42 c k (skip_sse42 c k s) = skip_sse42 c k s)"
proof -
  let ?P = "\<lambda>x. is_in x (string_view (mem s) c k)"
  let ?s' = "s\<lparr>mp_char := mp_char s + run_length ?P (mem s) (mp_char s) (available_size s)\<rparr>"
  have run: "skips_run ?P s ?s'" using assms by (rule skips_run_run_length)
  have again: "run_length ?P (mem s)
      (mp_char s + run_length ?P (mem s) (mp_char s) (available_size s)) (available_size ?s') = 0"
    using assms by (rule run_length_again)
  have scalar: "skip_scalar c k ?s' = ?s'"
    using again by (simp add: skip_scalar_eq [of c k ?s'])
  have vec: "skip_sse42 c k ?s' = ?s'" if "k \<le> 16" and "available_size s < 2 ^ 31"
  proof -
    have "available_size ?s' \<le> available_size s" by (simp add: available_size_def)
    with that have "available_size ?s' < 2 ^ 31" by simp
    with that again show ?thesis by (simp add: skip_sse42_eq [of k ?s' c])
  qed
  show ?thesis
    using run scalar vec by (simp add: skip_scalar_eq [of c k s] skip_sse42_eq [of k s c])
qed

lemma skip_stops_at_first_nonmember_example:
  "mp_char (cursor_on high_bit_text 0 5) \<le> mp_end (cursor_on high_bit_text 0 5) \<and>
   (3::nat) \<le> 16 \<and> available_size (cursor_on high_bit_text 0 5) < 2 ^ 31 \<and>
   skips_run (\<lambda>x. is_in x (string_view (mem (cursor_on high_bit_text 0 5)) 5 3))
     (cursor_on high_bit_text 0 5) (skip_scalar 5 3 (cursor_on high_bit_text 0 5)) \<and>
   skip_scalar 5 3 (skip_scalar 5 3 (cursor_on high_bit_text 0 5)) =
     skip_scalar 5 3 (cursor_on high_bit_text 0 5) \<and>
   skips_run (\<lambda>x. is_in x (string_view (mem (cursor_on high_bit_text 0 5)) 5 3))
     (cursor_on high_bit_text 0 5) (skip_sse42 5 3 (cursor_on high_bit_text 0 5)) \<and>
   skip_sse42 5 3 (skip_sse42 5 3 (cursor_on high_bit_text 0 5)) =
     skip_sse42 5 3 (cursor_on high_bit_text 0 5)"
proof -
  have h: "mp_char (cursor_on high_bit_text 0 5) \<le> mp_end (cursor_on high_bit_text 0 5)"
    by simp
  have a: "available_size (cursor_on high_bit_text 0 5) < 2 ^ 31"
    by (simp add: available_size_def)
  from skip_stops_at_first_nonmember [OF h, of 5 3] h a show ?thesis by simp
qed

text \<open>
  A second call of the vectorized \<open>skip\<close> changes nothing for a skip-set of any
  length, as long as fewer than \<open>2^31\<close> bytes are available.
\<close>

lemma skip_sse42_idempotent:
  assumes "mp_char s \<le> mp_end s" and "available_size s < 2 ^ 31"
  shows "skip_sse42 c k (skip_sse42 c k s) = skip_sse42 c k s"
proof -
  let ?P = "\<lambda>x. x \<in> set (take (valid_len (int_of_size_t k)) (mm_loadu_si128 (mem s) c))"
  let ?s' = "s\<lparr>mp_char := mp_char s + run_length ?P (mem s) (mp_char s) (available_size s)\<rparr>"
  have first: "skip_sse42 c k s = ?s'" using assms(2) by (rule skip_sse42_run)
  have "available_size ?s' \<le> available_size s" by (simp add: available_size_def)
  with assms(2) have small: "available_size ?s' < 2 ^ 31" by simp
  have again: "run_length ?P (mem s)
      (mp_char s + run_length ?P (mem s) (mp_char s) (available_size s)) (available_size ?s') = 0"
    using assms(1) by (rule run_length_again)
  have "skip_sse42 c k ?s' = ?s'"
    using again by (simp add: skip_sse42_run [OF small])
  with first show ?thesis by simp
qed

section \<open>Claims about the skip engines\<close>

text \<open>
  C3. The vectorized and the scalar path of \<open>skip\<close> do not end at the same
  position for a skip-set of 17 bytes. The buffer is the single byte \<open>q\<close>, the
  skip-set is \<open>abcdefghijklmnopq\<close> (stored after the buffer, at address 1). The
  vectorized path, whose comparison takes the first 16 bytes of the set, leaves
  the cursor at 0; the scalar path moves it to 1.
\<close>

theorem skip_sse42_differs_from_scalar:
  "mp_char (skip_sse42 1 17 (cursor_on ''qabcdefghijklmnopq'' 0 1)) = 0 \<and>
   mp_char (skip_scalar 1 17 (cursor_on ''qabcdefghijklmnopq'' 0 1)) = 1"
proof -
  have "mp_char (skip_scalar 1 17 (cursor_on ''qabcdefghijklmnopq'' 0 1)) = 1"
    by code_simp
  moreover have "mp_char (skip_sse42 1 17 (cursor_on ''qabcdefghijklmnopq'' 0 1)) = 0"
    by (rule skip_sse42_long_set_stays)
  ultimately show ?thesis by simp
qed

text \<open>
  C4. From a state with \<open>mp_char \<le> mp_end\<close>, every byte that
  \<open>skip_space_and_control\<close> moves the cursor over (an address from the old cursor up
  to, not including, the new one) has an unsigned value below \<open>0x80\<close>, on the AVX2
  path, on the SSE4.2 path and on the scalar path, which returns.
\<close>

theorem skip_space_and_control_below_0x80:
  assumes "mp_char s \<le> mp_end s" and "mp_char s \<le> a"
  shows "(a < mp_char (skip_space_and_control_avx2 s) \<longrightarrow> unat (mem s a) < 0x80) \<and>
         (a < mp_char (skip_space_and_control_sse42 rodata s) \<longrightarrow> unat (mem s a) < 0x80) \<and>
         (\<exists>s'. skip_space_and_control_scalar s = Some s' \<and>
               (a < mp_char s' \<longrightarrow> unat (mem s a) < 0x80))"
proof -
  let ?r = "run_length (\<lambda>x. x \<le> 32) (mem s) (mp_char s) (available_size s)"
  have "unat (mem s a) < 0x80" if "a < mp_char s + ?r"
  proof -
    from that assms(2) have "a - mp_char s < ?r" and a: "a = mp_char s + (a - mp_char s)" by simp_all
    then have "mem s (mp_char s + (a - mp_char s)) \<le> 32" by (intro run_length_all)
    with a have "mem s a \<le> 32" by simp
    then have "unat (mem s a) \<le> 32" by (simp add: word_le_nat_alt)
    then show ?thesis by simp
  qed
  then show ?thesis
    using assms(1)
    by (simp add: skip_space_and_control_scalar_eq skip_space_and_control_avx2_eq
        skip_space_and_control_sse42_eq)
qed

theorem skip_space_and_control_below_0x80_witness:
  "mp_char (cursor_on high_bit_text 0 5) \<le> mp_end (cursor_on high_bit_text 0 5) \<and>
   mp_char (cursor_on high_bit_text 0 5) \<le> 1 \<and>
   mp_char (skip_space_and_control_avx2 (cursor_on high_bit_text 0 5)) = 2 \<and>
   mp_char (skip_space_and_control_sse42 [] (cursor_on high_bit_text 0 5)) = 2 \<and>
   unat (mem (cursor_on high_bit_text 0 5) 1) < 0x80 \<and>
   unat (mem (cursor_on high_bit_text 0 5) 2) = 0x80"
proof -
  have h: "mp_char (cursor_on high_bit_text 0 5) \<le> mp_end (cursor_on high_bit_text 0 5)"
    and a: "mp_char (cursor_on high_bit_text 0 5) \<le> 1"
    by simp_all
  have r: "run_length (\<lambda>x. x \<le> 32) (bytes_at (map of_char high_bit_text)) 0 5 = 2"
    by code_simp
  have m: "unat (bytes_at (map of_char high_bit_text) 2) = 0x80"
    by code_simp
  from skip_space_and_control_below_0x80 [OF h a, of "[]"] h a r m show ?thesis
    by (simp add: skip_space_and_control_avx2_eq skip_space_and_control_sse42_eq
        available_size_def)
qed

text \<open>
  C5. The vectorized \<open>skip\<close> stops on a member of a skip-set of 17 bytes. The
  buffer is \<open>aq!\<close>, the skip-set is \<open>abcdefghijklmnopq\<close> (at address 3). The
  vectorized path leaves the cursor at 1, before the end of the buffer, on the
  byte \<open>q\<close>, which is in the set; the scalar path moves it to 2.
\<close>

theorem skip_sse42_stops_on_member:
  "mp_char (skip_sse42 3 17 (cursor_on ''aq!abcdefghijklmnopq'' 0 3)) = 1 \<and>
   mp_char (skip_sse42 3 17 (cursor_on ''aq!abcdefghijklmnopq'' 0 3)) <
     mp_end (cursor_on ''aq!abcdefghijklmnopq'' 0 3) \<and>
   is_in (mem (cursor_on ''aq!abcdefghijklmnopq'' 0 3) 1)
     (string_view (mem (cursor_on ''aq!abcdefghijklmnopq'' 0 3)) 3 17) \<and>
   mp_char (skip_scalar 3 17 (cursor_on ''aq!abcdefghijklmnopq'' 0 3)) = 2"
proof -
  have "is_in (bytes_at (map of_char ''aq!abcdefghijklmnopq'') 1)
          (string_view (bytes_at (map of_char ''aq!abcdefghijklmnopq'')) 3 17)"
    by code_simp
  moreover have "mp_char (skip_scalar 3 17 (cursor_on ''aq!abcdefghijklmnopq'' 0 3)) = 2"
    by code_simp
  ultimately show ?thesis by (simp add: skip_sse42_long_set_stops)
qed

section \<open>Claims about the invariant of the cursor\<close>




end
